theory Spec2Isabelle
  imports Main "HOL-Library.Word"
begin

section \<open>MIDIVibes.ino: data model\<close>

text \<open>
  The sketch polls sixteen analog inputs (one piezo pad each) and a sustain pedal, and writes
  three-byte MIDI messages to the serial port. The embedding follows the source function by
  function. Bit-fields of \<open>struct pad_t\<close> are words of their declared width, so a store into a
  field truncates as the C++ store does. \<open>int\<close> values (the result of \<open>analogRead\<close>, the
  velocity) are HOL integers: the only arithmetic on them is \<open>constrain\<close> and \<open>map\<close> on a value
  already clamped to 0..300, which stays far inside 16 bits.
\<close>

text \<open>Line 65: \<open>const uint8_t ARDUINO_NUMBER = 0\<close>, the column of the table this board drives.\<close>

definition ARDUINO_NUMBER :: nat where
  "ARDUINO_NUMBER = 0"

text \<open>Line 73: \<open>const bool velocitySensitive = false\<close>.\<close>

definition velocitySensitive :: bool where
  "velocitySensitive = False"

text \<open>
  Lines 75-76: the global constants \<open>minAmplitude\<close> and \<open>curAmplitude\<close>. Their names are taken
  by the fields of \<open>pad_t\<close> below, so the constants carry a suffix.
\<close>

definition minAmplitude_const :: "32 word" where
  "minAmplitude_const = 30"

definition curAmplitude_const :: "32 word" where
  "curAmplitude_const = minAmplitude_const"

text \<open>Line 119: \<open>const uint8_t MIDI_CHANNEL = 0\<close>.\<close>

definition MIDI_CHANNEL :: "8 word" where
  "MIDI_CHANNEL = 0"

text \<open>
  Lines 83-93: \<open>struct pad_t\<close>. \<open>active\<close> is a one-bit field used only as a truth value.
\<close>

record pad_t =
  active :: bool
  "note" :: "7 word"
  minAmplitude :: "10 word"
  unused1 :: "7 word"
  curAmplitude :: "10 word"
  unused2 :: "10 word"

text \<open>
  One entry of the initialiser of \<open>pads\<close> (lines 100-115):
  \<open>{ false, n, minAmplitude, 0, curAmplitude }\<close>; the sixth field is zero-initialised.
\<close>

definition pad_entry :: "7 word \<Rightarrow> pad_t" where
  "pad_entry n = \<lparr>active = False, note = n, minAmplitude = ucast minAmplitude_const,
     unused1 = 0, curAmplitude = ucast curAmplitude_const, unused2 = 0\<rparr>"

text \<open>Lines 98-116: \<open>struct pad_t pads[][3]\<close>, sixteen rows of three columns.\<close>

definition pads_table :: "pad_t list list" where
  "pads_table =
    [ [pad_entry 53, pad_entry 54, pad_entry 0]
    , [pad_entry 55, pad_entry 56, pad_entry 0]
    , [pad_entry 57, pad_entry 58, pad_entry 0]
    , [pad_entry 59, pad_entry 61, pad_entry 0]
    , [pad_entry 60, pad_entry 63, pad_entry 0]
    , [pad_entry 62, pad_entry 66, pad_entry 0]
    , [pad_entry 64, pad_entry 68, pad_entry 0]
    , [pad_entry 65, pad_entry 70, pad_entry 0]
    , [pad_entry 67, pad_entry 73, pad_entry 0]
    , [pad_entry 69, pad_entry 75, pad_entry 0]
    , [pad_entry 71, pad_entry 78, pad_entry 0]
    , [pad_entry 72, pad_entry 80, pad_entry 0]
    , [pad_entry 74, pad_entry 82, pad_entry 0]
    , [pad_entry 76, pad_entry 85, pad_entry 0]
    , [pad_entry 77, pad_entry 87, pad_entry 0]
    , [pad_entry 79, pad_entry 0, pad_entry 0] ]"

text \<open>
  The mutable globals: the table \<open>pads\<close>, \<open>curPedalState\<close> (line 81), and the level last written
  to the LED pin.
\<close>

record state =
  pads :: "pad_t list list"
  curPedalState :: bool
  led :: bool

definition init_state :: state where
  "init_state = \<lparr>pads = pads_table, curPedalState = False, led = False\<rparr>"

text \<open>
  One call of \<open>midi_send\<close> writes three bytes to the serial port; a message is that triple, and
  the serial output is the list of messages in the order they were written.
\<close>

type_synonym midi_msg = "8 word \<times> 8 word \<times> 8 word"

section \<open>The functions of the sketch\<close>

text \<open>Lines 121-135, with \<open>SEND_MIDI\<close> defined (line 47).\<close>

definition midi_send :: "8 word \<Rightarrow> 8 word \<Rightarrow> 8 word \<Rightarrow> midi_msg" where
  "midi_send midi_message pitch midi_velocity =
     (let noteOnCommand = midi_message + MIDI_CHANNEL
      in (noteOnCommand, pitch, midi_velocity))"

text \<open>
  Arduino's \<open>constrain(x, a, b)\<close> and \<open>map(x, in_min, in_max, out_min, out_max)\<close>. The only
  call of \<open>map\<close> has its argument clamped to 0..300, so the dividend is never negative and
  \<open>div\<close> is the division of C.
\<close>

definition constrain :: "int \<Rightarrow> int \<Rightarrow> int \<Rightarrow> int" where
  "constrain x a b = (if x < a then a else if x > b then b else x)"

definition map_range :: "int \<Rightarrow> int \<Rightarrow> int \<Rightarrow> int \<Rightarrow> int \<Rightarrow> int" where
  "map_range x in_min in_max out_min out_max =
     (x - in_min) * (out_max - out_min) div (in_max - in_min) + out_min"

text \<open>
  Lines 137-196. \<open>curPedal\<close> is the global \<open>curPedalState\<close> the function reads,
  \<open>analogRead\<close> the converter (a reading for each pin), \<open>pad\<close> the referenced table entry; the
  result is the entry as the function leaves it and the messages it sent. The parameter
  \<open>iROW\<close> is not used by the source and is left out. A bit-field operand of a comparison is
  promoted to \<open>int\<close> (ten bits fit the 16-bit \<open>int\<close> of the AVR), hence \<open>uint\<close>; a store into
  a ten-bit field keeps the low ten bits, hence \<open>word_of_int\<close>.
\<close>

definition do_channel :: "bool \<Rightarrow> (nat \<Rightarrow> int) \<Rightarrow> nat \<Rightarrow> pad_t \<Rightarrow> pad_t \<times> midi_msg list" where
  "do_channel curPedal analogRead pinADC pad =
     (let analogValue = analogRead pinADC;
          constrainedAnalogValue = constrain analogValue 0 300;
          velocity = map_range constrainedAnalogValue 0 300 0 127
      in if analogValue > uint (minAmplitude pad) then
           (if \<not> active pad then
              (let pad1 = pad\<lparr>active := True\<rparr>;
                   pad2 = pad1\<lparr>curAmplitude := word_of_int analogValue\<rparr>;
                   velocity' = (if \<not> velocitySensitive then 0x7F else velocity)
               in (pad2, [midi_send 0x90 (ucast (note pad2)) (word_of_int velocity')]))
            else (pad, []))
         else if active pad then
           (let pad1 = (if analogValue < uint (curAmplitude pad)
                        then pad\<lparr>curAmplitude := word_of_int analogValue\<rparr> else pad)
            in if analogValue \<le> uint (minAmplitude pad1) then
                 (let pad2 = pad1\<lparr>curAmplitude := minAmplitude pad1\<rparr>
                  in if \<not> curPedal
                     then (pad2\<lparr>active := False\<rparr>, [midi_send 0x90 (ucast (note pad2)) 0])
                     else (pad2, []))
               else (pad1, []))
         else (pad, []))"

text \<open>
  Lines 247-264. The argument is the level \<open>digitalRead(SustainPedalPin)\<close> returned
  (\<open>True\<close> for \<open>HIGH\<close>); the result is the pedal state and the state with the LED level written.
\<close>

definition checkFootSwitchOnD2 :: "bool \<Rightarrow> state \<Rightarrow> bool \<times> state" where
  "checkFootSwitchOnD2 sustainPedalValue st =
     (if sustainPedalValue then (False, st\<lparr>led := False\<rparr>) else (True, st\<lparr>led := True\<rparr>))"

text \<open>Lines 201-203: \<open>ROWS\<close>, \<open>COLUMN\<close> and \<open>pinsADC\<close> (analog pin \<open>Ak\<close> is channel \<open>k\<close>).\<close>

definition ROWS :: "state \<Rightarrow> nat" where
  "ROWS st = length (pads st)"

definition COLUMN :: nat where
  "COLUMN = ARDUINO_NUMBER"

definition pinsADC :: "nat list" where
  "pinsADC = [0, 1, 2, 3, 4, 5, 6, 7, 8, 9, 10, 11, 12, 13, 14, 15]"

text \<open>
  Lines 213-222: the body of the pedal-release loop for row \<open>iROW\<close>, on the table and the
  messages sent so far.
\<close>

definition pedal_off_row :: "nat \<Rightarrow> pad_t list list \<times> midi_msg list \<Rightarrow> pad_t list list \<times> midi_msg list" where
  "pedal_off_row iROW = (\<lambda>(ps, out).
     (let pad = ps ! iROW ! COLUMN
      in if active pad
         then (ps[iROW := (ps ! iROW)[COLUMN := pad\<lparr>active := False\<rparr>]],
               out @ [midi_send 0x90 (ucast (note pad)) 0])
         else (ps, out)))"

text \<open>Line 237: the body of the channel loop for row \<open>iROW\<close>.\<close>

definition channel_row :: "bool \<Rightarrow> (nat \<Rightarrow> int) \<Rightarrow> nat \<Rightarrow> pad_t list list \<times> midi_msg list \<Rightarrow> pad_t list list \<times> midi_msg list" where
  "channel_row curPedal analogRead iROW = (\<lambda>(ps, out).
     (let (pad', sent) = do_channel curPedal analogRead (pinsADC ! iROW) (ps ! iROW ! COLUMN)
      in (ps[iROW := (ps ! iROW)[COLUMN := pad']], out @ sent)))"

text \<open>
  Lines 206-232: the pedal part of \<open>loop\<close>. It reads the foot switch, sweeps the table on a
  change from on to off, and stores the new pedal state.
\<close>

definition loop_pedal :: "bool \<Rightarrow> state \<Rightarrow> state \<times> midi_msg list" where
  "loop_pedal sustainPedalValue st =
     (let (newPedalState, st1) = checkFootSwitchOnD2 sustainPedalValue st;
          (ps, out) = (if curPedalState st1 \<and> \<not> newPedalState
                       then fold pedal_off_row [0..<ROWS st1] (pads st1, [])
                       else (pads st1, []))
      in (st1\<lparr>pads := ps, curPedalState := newPedalState\<rparr>, out))"

text \<open>Lines 236-238: the channel part of \<open>loop\<close>.\<close>

definition loop_channels :: "(nat \<Rightarrow> int) \<Rightarrow> state \<Rightarrow> state \<times> midi_msg list" where
  "loop_channels analogRead st =
     (let (ps, out) = fold (channel_row (curPedalState st) analogRead) [0..<ROWS st] (pads st, [])
      in (st\<lparr>pads := ps\<rparr>, out))"

text \<open>
  Lines 198-245: one poll cycle. Its inputs are the level of the pedal pin and the readings of
  the converter during the cycle; its result is the new state and the messages of the cycle.
\<close>

type_synonym cycle_input = "bool \<times> (nat \<Rightarrow> int)"

definition loop :: "cycle_input \<Rightarrow> state \<Rightarrow> state \<times> midi_msg list" where
  "loop inp st =
     (let (st1, out1) = loop_pedal (fst inp) st;
          (st2, out2) = loop_channels (snd inp) st1
      in (st2, out1 @ out2))"

text \<open>
  The Arduino runtime calls \<open>loop\<close> forever; \<open>run\<close> is a finite prefix of that, one input per
  cycle, returning the messages of each cycle.
\<close>

fun run :: "cycle_input list \<Rightarrow> state \<Rightarrow> state \<times> midi_msg list list" where
  "run [] st = (st, [])"
| "run (inp # inps) st =
     (let (st1, out) = loop inp st;
          (st2, outs) = run inps st1
      in (st2, out # outs))"

section \<open>Vocabulary of the properties\<close>

text \<open>
  The two events of the design as the bytes \<open>midi_send\<close> writes: a note-on is status
  \<open>0x90\<close> with the pad's note and a velocity, a note-off is the same status with velocity 0.
\<close>

definition NoteOn :: "7 word \<Rightarrow> 8 word \<Rightarrow> midi_msg" where
  "NoteOn n v = (0x90, ucast n, v)"

definition NoteOff :: "7 word \<Rightarrow> midi_msg" where
  "NoteOff n = (0x90, ucast n, 0)"

text \<open>
  The table has the shape the source declares: sixteen rows (one per analog pin) of three
  columns. Every state the sketch reaches has it.
\<close>

definition wf_state :: "state \<Rightarrow> bool" where
  "wf_state st \<longleftrightarrow> length (pads st) = 16 \<and> (\<forall>row \<in> set (pads st). length row = 3)"

text \<open>The pad of channel \<open>r\<close>: the entry \<open>pads[r][COLUMN]\<close> the poll cycle works on.\<close>

abbreviation channel :: "state \<Rightarrow> nat \<Rightarrow> pad_t" where
  "channel st r \<equiv> pads st ! r ! COLUMN"

text \<open>
  What one iteration of the pedal-release loop does to its row and what it sends, used to
  write the loop in closed form.
\<close>

definition sweep_row :: "pad_t list \<Rightarrow> pad_t list" where
  "sweep_row row =
     (if active (row ! COLUMN) then row[COLUMN := (row ! COLUMN)\<lparr>active := False\<rparr>] else row)"

definition sweep_sent :: "pad_t list \<Rightarrow> midi_msg list" where
  "sweep_sent row = (if active (row ! COLUMN) then [NoteOff (note (row ! COLUMN))] else [])"

text \<open>
  \<open>analogRead\<close> returns a reading of the 10-bit converter (the source: "A/D is 1 to 1023"),
  so a sequence of readings the sketch can see is one in this range.
\<close>

definition adc_range :: "(nat \<Rightarrow> int) \<Rightarrow> bool" where
  "adc_range analogRead \<longleftrightarrow> (\<forall>pin. 0 \<le> analogRead pin \<and> analogRead pin \<le> 1023)"

text \<open>
  What a change of a pad's \<open>active\<close> flag from \<open>p\<close> to \<open>p'\<close> should send: a note-on when
  it goes from inactive to active, a note-off when it goes from active to inactive, nothing
  when it stays.
\<close>

definition flip_sent :: "pad_t \<Rightarrow> pad_t \<Rightarrow> midi_msg list" where
  "flip_sent p p' =
     (if \<not> active p \<and> active p' then [NoteOn (note p) 0x7F]
      else if active p \<and> \<not> active p' then [NoteOff (note p)]
      else [])"

text \<open>
  The history of channel \<open>r\<close> over a run: for every cycle, its \<open>active\<close> flag before and
  after the pedal part, then before and after the channel part. These are all the places
  where the flag of the channel is written.
\<close>

fun flips :: "nat \<Rightarrow> cycle_input list \<Rightarrow> state \<Rightarrow> (bool \<times> bool) list" where
  "flips r [] st = []"
| "flips r (inp # inps) st =
     (active (channel st r), active (channel (fst (loop_pedal (fst inp) st)) r))
     # (active (channel (fst (loop_pedal (fst inp) st)) r), active (channel (fst (loop inp st)) r))
     # flips r inps (fst (loop inp st))"

text \<open>Sample inputs and states for the concrete evaluations below.\<close>

definition pad0_only :: "int \<Rightarrow> nat \<Rightarrow> int" where
  "pad0_only s = (\<lambda>pin. if pin = 0 then s else 0)"

definition struck :: state where
  "struck = init_state\<lparr>pads := pads_table
     [0 := [(pad_entry 53)\<lparr>active := True, curAmplitude := 45\<rparr>, pad_entry 54, pad_entry 0]]\<rparr>"

definition demo_held :: state where
  "demo_held = \<lparr>pads = pads_table
     [0 := [(pad_entry 53)\<lparr>active := True, curAmplitude := 45\<rparr>, pad_entry 54, pad_entry 0],
      2 := [(pad_entry 57)\<lparr>active := True, curAmplitude := 60\<rparr>, pad_entry 58, pad_entry 0]],
     curPedalState = True, led = True\<rparr>"

section \<open>The per-channel update\<close>

lemma pad_entry_sel [simp]:
  "active (pad_entry n) = False" "note (pad_entry n) = n" "minAmplitude (pad_entry n) = 30"
  "curAmplitude (pad_entry n) = 30" "unused1 (pad_entry n) = 0" "unused2 (pad_entry n) = 0"
  by (simp_all add: pad_entry_def minAmplitude_const_def curAmplitude_const_def)

text \<open>The two outer branches of \<open>do_channel\<close>, each in closed form.\<close>

lemma do_channel_above:
  "uint (minAmplitude pad) < analogRead pinADC \<Longrightarrow>
   do_channel h analogRead pinADC pad =
     (if active pad then (pad, [])
      else (pad\<lparr>active := True, curAmplitude := word_of_int (analogRead pinADC)\<rparr>,
            [NoteOn (note pad) 0x7F]))"
  by (simp add: do_channel_def Let_def velocitySensitive_def midi_send_def MIDI_CHANNEL_def
      NoteOn_def)

lemma do_channel_below:
  "analogRead pinADC \<le> uint (minAmplitude pad) \<Longrightarrow>
   do_channel h analogRead pinADC pad =
     (if active pad
      then (if h then (pad\<lparr>curAmplitude := minAmplitude pad\<rparr>, [])
            else (pad\<lparr>curAmplitude := minAmplitude pad, active := False\<rparr>,
                  [NoteOff (note pad)]))
      else (pad, []))"
  by (simp add: do_channel_def Let_def midi_send_def MIDI_CHANNEL_def NoteOff_def)

text \<open>A reading of the 10-bit converter fits the 10-bit field it is stored in.\<close>

lemma store_sample:
  "0 \<le> s \<Longrightarrow> s \<le> 1023 \<Longrightarrow> uint (word_of_int s :: 10 word) = s"
  by (simp add: uint_word_of_int)

text \<open>
  C5. A sample strictly above \<open>minAmplitude\<close> on an inactive pad sets \<open>active\<close>, stores the
  sample in \<open>curAmplitude\<close> (the sample itself for every reading of the 10-bit converter, up to
  1023) and sends exactly one note-on with the pad's note and velocity \<open>0x7F\<close>; on an active
  pad it changes nothing and sends nothing, so the same sample fed a second time sends nothing.
\<close>

theorem trigger_above_threshold:
  assumes "uint (minAmplitude pad) < analogRead pinADC"
  shows "(\<not> active pad \<longrightarrow>
            do_channel h analogRead pinADC pad =
              (pad\<lparr>active := True, curAmplitude := word_of_int (analogRead pinADC)\<rparr>,
               [NoteOn (note pad) 0x7F])
          \<and> (analogRead pinADC \<le> 1023 \<longrightarrow>
               uint (curAmplitude (fst (do_channel h analogRead pinADC pad))) = analogRead pinADC))
       \<and> (active pad \<longrightarrow> do_channel h analogRead pinADC pad = (pad, []))
       \<and> snd (do_channel h analogRead pinADC (fst (do_channel h analogRead pinADC pad))) = []"
proof -
  have nonneg: "0 \<le> analogRead pinADC"
    using assms uint_ge_0 [of "minAmplitude pad"] by linarith
  show ?thesis
    using assms nonneg by (simp add: do_channel_above store_sample)
qed

theorem trigger_above_threshold_witness:
  "uint (minAmplitude (pad_entry 53)) < (\<lambda>_. 45) (0::nat)
   \<and> \<not> active (pad_entry 53) \<and> (45::int) \<le> 1023
   \<and> do_channel False (\<lambda>_. 45) 0 (pad_entry 53) =
       ((pad_entry 53)\<lparr>active := True, curAmplitude := 45\<rparr>, [NoteOn 53 0x7F])
   \<and> uint (curAmplitude (fst (do_channel False (\<lambda>_. 45) 0 (pad_entry 53)))) = 45
   \<and> active ((pad_entry 53)\<lparr>active := True, curAmplitude := 45\<rparr>)
   \<and> do_channel False (\<lambda>_. 45) 0 ((pad_entry 53)\<lparr>active := True, curAmplitude := 45\<rparr>) =
       ((pad_entry 53)\<lparr>active := True, curAmplitude := 45\<rparr>, [])
   \<and> snd (do_channel False (\<lambda>_. 45) 0 (fst (do_channel False (\<lambda>_. 45) 0 (pad_entry 53)))) = []"
proof -
  let ?p = "(pad_entry 53)\<lparr>active := True, curAmplitude := 45\<rparr>"
  have h: "uint (minAmplitude (pad_entry 53)) < (\<lambda>_. 45) (0::nat)"
    by simp
  have i: "\<not> active (pad_entry 53)"
    by simp
  note t = trigger_above_threshold [of "pad_entry 53" "\<lambda>_. 45" 0 False]
  from t i have first: "do_channel False (\<lambda>_. 45) 0 (pad_entry 53) = (?p, [NoteOn 53 0x7F])"
    by simp
  have again: "do_channel False (\<lambda>_. 45) 0 ?p = (?p, [])"
    using trigger_above_threshold [of ?p "\<lambda>_. 45" 0 False] by simp
  from t h i first again show ?thesis by simp
qed

section \<open>The poll cycle in closed form\<close>

lemma fold_rows_closed:
  "n \<le> length ps \<Longrightarrow>
   fold (\<lambda>i (qs, out). (qs[i := F i (qs ! i)], out @ G i (qs ! i))) [0..<n] (ps, out0)
     = (map (\<lambda>i. F i (ps ! i)) [0..<n] @ drop n ps, out0 @ concat (map (\<lambda>i. G i (ps ! i)) [0..<n]))"
proof (induction n)
  case 0
  then show ?case by simp
next
  case (Suc n)
  then have n: "n < length ps" by simp
  have nth: "(map (\<lambda>i. F i (ps ! i)) [0..<n] @ drop n ps) ! n = ps ! n"
    using n by (simp add: nth_append)
  have upd: "(map (\<lambda>i. F i (ps ! i)) [0..<n] @ drop n ps)[n := F n (ps ! n)]
               = map (\<lambda>i. F i (ps ! i)) [0..<n] @ F n (ps ! n) # drop (Suc n) ps"
    using n by (simp add: list_update_append Cons_nth_drop_Suc [symmetric])
  show ?case
    using Suc.IH n by (simp add: nth upd)
qed

lemma fold_rows_all:
  "fold (\<lambda>i (qs, out). (qs[i := F i (qs ! i)], out @ G i (qs ! i))) [0..<length ps] (ps, [])
     = (map (\<lambda>i. F i (ps ! i)) [0..<length ps], concat (map (\<lambda>i. G i (ps ! i)) [0..<length ps]))"
  using fold_rows_closed [of "length ps" ps F G "[]"] by simp

lemma pedal_off_row_shape:
  "pedal_off_row = (\<lambda>i (qs, out). (qs[i := sweep_row (qs ! i)], out @ sweep_sent (qs ! i)))"
  by (auto simp: pedal_off_row_def sweep_row_def sweep_sent_def fun_eq_iff Let_def
      midi_send_def MIDI_CHANNEL_def NoteOff_def)

lemma channel_row_shape:
  "channel_row h adc = (\<lambda>i (qs, out).
      (qs[i := (qs ! i)[COLUMN := fst (do_channel h adc (pinsADC ! i) (qs ! i ! COLUMN))]],
       out @ snd (do_channel h adc (pinsADC ! i) (qs ! i ! COLUMN))))"
  by (auto simp: channel_row_def fun_eq_iff Let_def split: prod.splits)

lemma map_index:
  "map (\<lambda>i. f (ps ! i)) [0..<length ps] = map f ps"
  by (rule nth_equalityI) simp_all

lemma sweep_fold:
  "fold pedal_off_row [0..<length ps] (ps, []) = (map sweep_row ps, concat (map sweep_sent ps))"
proof -
  have "fold pedal_off_row [0..<length ps] (ps, [])
          = (map (\<lambda>i. sweep_row (ps ! i)) [0..<length ps],
             concat (map (\<lambda>i. sweep_sent (ps ! i)) [0..<length ps]))"
    unfolding pedal_off_row_shape
    by (rule fold_rows_all [of "\<lambda>i. sweep_row" "\<lambda>i. sweep_sent" ps])
  then show ?thesis by (simp add: map_index)
qed

lemma channels_fold:
  "fold (channel_row h adc) [0..<length ps] (ps, [])
     = (map (\<lambda>i. (ps ! i)[COLUMN := fst (do_channel h adc (pinsADC ! i) (ps ! i ! COLUMN))])
          [0..<length ps],
        concat (map (\<lambda>i. snd (do_channel h adc (pinsADC ! i) (ps ! i ! COLUMN))) [0..<length ps]))"
  unfolding channel_row_shape
  by (rule fold_rows_all
      [of "\<lambda>i row. row[COLUMN := fst (do_channel h adc (pinsADC ! i) (row ! COLUMN))]"
          "\<lambda>i row. snd (do_channel h adc (pinsADC ! i) (row ! COLUMN))" ps])

lemma loop_pedal_closed:
  "loop_pedal v st =
     (st\<lparr>led := \<not> v,
         pads := (if curPedalState st \<and> v then map sweep_row (pads st) else pads st),
         curPedalState := \<not> v\<rparr>,
      if curPedalState st \<and> v then concat (map sweep_sent (pads st)) else [])"
  by (simp add: loop_pedal_def checkFootSwitchOnD2_def ROWS_def sweep_fold)

lemma loop_channels_closed:
  "loop_channels adc st =
     (st\<lparr>pads := map (\<lambda>i. (pads st ! i)[COLUMN :=
               fst (do_channel (curPedalState st) adc (pinsADC ! i) (pads st ! i ! COLUMN))])
             [0..<length (pads st)]\<rparr>,
      concat (map (\<lambda>i. snd (do_channel (curPedalState st) adc (pinsADC ! i) (pads st ! i ! COLUMN)))
             [0..<length (pads st)]))"
  by (simp add: loop_channels_def ROWS_def channels_fold)

lemma pinsADC_nth:
  assumes "i < 16"
  shows "pinsADC ! i = i"
proof -
  have "pinsADC = [0..<16]" by (simp add: pinsADC_def upt_rec)
  moreover have "[0..<16] ! i = 0 + i" using assms by (intro nth_upt) simp
  ultimately show ?thesis by simp
qed

lemma COLUMN_lt [simp]: "COLUMN < 3"
  by (simp add: COLUMN_def ARDUINO_NUMBER_def)

lemma inactive_upd: "\<not> active p \<Longrightarrow> p\<lparr>active := False\<rparr> = p"
  by (cases p) simp

lemma wf_stateD:
  "wf_state st \<Longrightarrow> length (pads st) = 16"
  "wf_state st \<Longrightarrow> r < 16 \<Longrightarrow> length (pads st ! r) = 3"
  by (simp_all add: wf_state_def)

lemma sweep_row_length [simp]: "length (sweep_row row) = length row"
  by (simp add: sweep_row_def)

lemma wf_loop_pedal: "wf_state st \<Longrightarrow> wf_state (fst (loop_pedal v st))"
  by (auto simp: loop_pedal_closed wf_state_def)

lemma wf_loop_channels: "wf_state st \<Longrightarrow> wf_state (fst (loop_channels adc st))"
  by (auto simp: loop_channels_closed wf_state_def)

lemma loop_split:
  "loop inp st = (fst (loop_channels (snd inp) (fst (loop_pedal (fst inp) st))),
                  snd (loop_pedal (fst inp) st) @ snd (loop_channels (snd inp) (fst (loop_pedal (fst inp) st))))"
  by (simp add: loop_def split: prod.splits)

lemma wf_loop: "wf_state st \<Longrightarrow> wf_state (fst (loop inp st))"
  by (simp add: loop_split wf_loop_pedal wf_loop_channels)

lemma run_Cons:
  "run (inp # inps) st = (fst (run inps (fst (loop inp st))), snd (loop inp st) # snd (run inps (fst (loop inp st))))"
  by (simp split: prod.splits)

lemma wf_run: "wf_state st \<Longrightarrow> wf_state (fst (run inps st))"
  by (induction inps arbitrary: st) (simp_all add: run_Cons wf_loop del: run.simps(2))

lemma wf_init: "wf_state init_state"
  by (simp add: wf_state_def init_state_def pads_table_def)

text \<open>The pedal part, seen from one channel.\<close>

lemma pads_loop_pedal:
  "wf_state st \<Longrightarrow> r < 16 \<Longrightarrow>
   pads (fst (loop_pedal v st)) ! r =
     (if curPedalState st \<and> v then (pads st ! r)[COLUMN := (pads st ! r ! COLUMN)\<lparr>active := False\<rparr>]
      else pads st ! r)"
  by (auto simp: loop_pedal_closed wf_state_def sweep_row_def inactive_upd)

lemma channel_loop_pedal:
  "wf_state st \<Longrightarrow> r < 16 \<Longrightarrow>
   channel (fst (loop_pedal v st)) r =
     (if curPedalState st \<and> v then (channel st r)\<lparr>active := False\<rparr> else channel st r)"
  by (simp add: pads_loop_pedal wf_stateD)

lemma curPedal_loop_pedal [simp]: "curPedalState (fst (loop_pedal v st)) = (\<not> v)"
  by (simp add: loop_pedal_closed)

lemma sent_loop_pedal:
  "wf_state st \<Longrightarrow>
   snd (loop_pedal v st) =
     (if curPedalState st \<and> v
      then concat (map (\<lambda>r. if active (channel st r) then [NoteOff (note (channel st r))] else []) [0..<16])
      else [])"
proof -
  assume wf: "wf_state st"
  have "map sweep_sent (pads st) = map (\<lambda>r. sweep_sent (pads st ! r)) [0..<length (pads st)]"
    by (simp add: map_index)
  then show ?thesis
    using wf by (simp add: loop_pedal_closed wf_stateD sweep_sent_def del: upt_Suc)
qed

text \<open>The channel part, seen from one channel.\<close>

lemma pads_loop_channels:
  "wf_state st \<Longrightarrow> r < 16 \<Longrightarrow>
   pads (fst (loop_channels adc st)) ! r =
     (pads st ! r)[COLUMN := fst (do_channel (curPedalState st) adc r (pads st ! r ! COLUMN))]"
  by (simp add: loop_channels_closed wf_stateD pinsADC_nth del: upt_Suc)

lemma channel_loop_channels:
  "wf_state st \<Longrightarrow> r < 16 \<Longrightarrow>
   channel (fst (loop_channels adc st)) r = fst (do_channel (curPedalState st) adc r (channel st r))"
  by (simp add: pads_loop_channels wf_stateD)

lemma curPedal_loop_channels [simp]: "curPedalState (fst (loop_channels adc st)) = curPedalState st"
  by (simp add: loop_channels_closed)

lemma sent_loop_channels:
  assumes wf: "wf_state st"
  shows "snd (loop_channels adc st) =
     concat (map (\<lambda>r. snd (do_channel (curPedalState st) adc r (channel st r))) [0..<16])"
proof -
  have eq: "map (\<lambda>i. snd (do_channel (curPedalState st) adc (pinsADC ! i) (channel st i))) [0..<16]
      = map (\<lambda>r. snd (do_channel (curPedalState st) adc r (channel st r))) [0..<16]"
    by (rule map_cong) (simp_all add: pinsADC_nth del: upt_Suc)
  have "snd (loop_channels adc st) =
     concat (map (\<lambda>i. snd (do_channel (curPedalState st) adc (pinsADC ! i) (channel st i))) [0..<16])"
    using wf by (simp add: loop_channels_closed wf_stateD del: upt_Suc)
  then show ?thesis unfolding eq .
qed

lemma loop_sent:
  "snd (loop (v, adc) st) = snd (loop_pedal v st) @ snd (loop_channels adc (fst (loop_pedal v st)))"
  by (simp add: loop_split)

lemma loop_state:
  "fst (loop (v, adc) st) = fst (loop_channels adc (fst (loop_pedal v st)))"
  by (simp add: loop_split)

section \<open>Order within a poll cycle\<close>

text \<open>
  C7. In a poll cycle the pedal part runs first: it stores the new pedal state
  (\<open>\<not> sustainPedalValue\<close>, the input being pulled up) and, on a change from on to off, sends
  the note-offs of the sweep in ascending row order. The channel part then evaluates every row
  0..15 exactly once, in ascending order, on the table the pedal part left and with the pedal
  state it stored; the messages of the cycle are those of the sweep followed by those of the
  rows in ascending order.
\<close>

theorem poll_cycle_order:
  assumes "wf_state st"
  shows "curPedalState (fst (loop_pedal v st)) = (\<not> v)
     \<and> snd (loop_pedal v st) =
         (if curPedalState st \<and> v
          then concat (map (\<lambda>r. if active (channel st r) then [NoteOff (note (channel st r))] else [])
                 [0..<16])
          else [])
     \<and> snd (loop (v, adc) st) =
         snd (loop_pedal v st) @
         concat (map (\<lambda>r. snd (do_channel (\<not> v) adc r (channel (fst (loop_pedal v st)) r))) [0..<16])
     \<and> (\<forall>r<16. channel (fst (loop (v, adc) st)) r =
                  fst (do_channel (\<not> v) adc r (channel (fst (loop_pedal v st)) r)))
     \<and> curPedalState (fst (loop (v, adc) st)) = (\<not> v)"
proof -
  have wf1: "wf_state (fst (loop_pedal v st))"
    using assms by (rule wf_loop_pedal)
  show ?thesis
    using assms wf1
    by (simp add: loop_sent loop_state sent_loop_pedal sent_loop_channels channel_loop_channels
        del: upt_Suc)
qed

lemma wf_demo_held: "wf_state demo_held"
  by (simp add: wf_state_def demo_held_def pads_table_def)

lemma upt_16: "[0..<16] = [0,1,2,3,4,5,6,7,8,9,10,11,12,13,14,15]"
  by (simp add: upt_rec)

lemmas eval_defs = loop_split loop_pedal_closed loop_channels_closed sweep_row_def sweep_sent_def
  pinsADC_def do_channel_def Let_def COLUMN_def ARDUINO_NUMBER_def velocitySensitive_def
  midi_send_def MIDI_CHANNEL_def NoteOn_def NoteOff_def pad_entry_def minAmplitude_const_def
  curAmplitude_const_def pads_table_def init_state_def constrain_def map_range_def

theorem poll_cycle_order_witness:
  "wf_state demo_held
   \<and> snd (loop (True, \<lambda>r. if r = 1 then 45 else if r = 2 then 70 else 0) demo_held)
       = [NoteOff 53, NoteOff 57, NoteOn 55 0x7F, NoteOn 57 0x7F]"
proof -
  let ?adc = "\<lambda>r::nat. if r = 1 then 45 else if r = 2 then (70::int) else 0"
  note t = poll_cycle_order [OF wf_demo_held, of True ?adc]
  from t have "snd (loop (True, ?adc) demo_held) =
         snd (loop_pedal True demo_held) @
         concat (map (\<lambda>r. snd (do_channel (\<not> True) ?adc r (channel (fst (loop_pedal True demo_held)) r))) [0..<16])"
    by blast
  also have "\<dots> = [NoteOff 53, NoteOff 57, NoteOn 55 0x7F, NoteOn 57 0x7F]"
    by (simp add: eval_defs demo_held_def upt_16)
  finally show ?thesis using wf_demo_held by simp
qed

section \<open>A strike and its decay on channel 0\<close>

lemma step_quiet: "loop (True, pad0_only 10) init_state = (init_state, [])"
  by (simp add: eval_defs upt_16 pad0_only_def)

lemma step_strike: "loop (True, pad0_only 45) init_state = (struck, [NoteOn 53 0x7F])"
  by (simp add: eval_defs upt_16 pad0_only_def struck_def)

lemma step_ring: "loop (True, pad0_only 45) struck = (struck, [])"
  by (simp add: eval_defs upt_16 pad0_only_def struck_def)

lemma step_decay: "loop (True, pad0_only 5) struck = (init_state, [NoteOff 53])"
  by (simp add: eval_defs upt_16 pad0_only_def struck_def)

lemma step_silent: "loop (True, pad0_only 5) init_state = (init_state, [])"
  by (simp add: eval_defs upt_16 pad0_only_def)

text \<open>
  C6. Channel 0 has note 53 and threshold 30. With the pedal up throughout and the readings
  10, 45, 45, 5, 5 on pin A0 (all other pins at 0), the five cycles send nothing, the note-on
  of note 53 at velocity \<open>0x7F\<close>, nothing, the note-off of note 53, nothing.
\<close>

theorem concrete_scenario:
  "note (channel init_state 0) = 53 \<and> minAmplitude (channel init_state 0) = 30
   \<and> snd (run [(True, pad0_only 10), (True, pad0_only 45), (True, pad0_only 45),
               (True, pad0_only 5), (True, pad0_only 5)] init_state)
       = [[], [NoteOn 53 0x7F], [], [NoteOff 53], []]"
proof -
  have "note (channel init_state 0) = 53 \<and> minAmplitude (channel init_state 0) = 30"
    by (simp add: init_state_def pads_table_def COLUMN_def ARDUINO_NUMBER_def)
  then show ?thesis
    by (simp add: step_quiet step_strike step_ring step_decay step_silent)
qed

section \<open>The pedal-release sweep\<close>

text \<open>All four cases of \<open>do_channel\<close> at once.\<close>

lemma do_channel_cases:
  "do_channel h adc pin pad =
     (if uint (minAmplitude pad) < adc pin
      then (if active pad then (pad, [])
            else (pad\<lparr>active := True, curAmplitude := word_of_int (adc pin)\<rparr>, [NoteOn (note pad) 0x7F]))
      else (if active pad
            then (if h then (pad\<lparr>curAmplitude := minAmplitude pad\<rparr>, [])
                  else (pad\<lparr>curAmplitude := minAmplitude pad, active := False\<rparr>, [NoteOff (note pad)]))
            else (pad, [])))"
  by (simp add: do_channel_above do_channel_below)

text \<open>An inactive pad never sends a message of velocity 0.\<close>

lemma do_channel_inactive_no_off:
  "\<not> active pad \<Longrightarrow> filter (\<lambda>m. snd (snd m) = 0) (snd (do_channel h adc pin pad)) = []"
  by (simp add: do_channel_cases NoteOn_def)

lemma filter_sweep:
  "filter (\<lambda>m. snd (snd m) = 0)
     (concat (map (\<lambda>r. if active (channel st r) then [NoteOff (note (channel st r))] else []) rs))
   = concat (map (\<lambda>r. if active (channel st r) then [NoteOff (note (channel st r))] else []) rs)"
  by (induction rs) (simp_all add: NoteOff_def)

lemma filter_channels_inactive:
  "(\<And>r. r \<in> set rs \<Longrightarrow> \<not> active (P r)) \<Longrightarrow>
   filter (\<lambda>m. snd (snd m) = 0) (concat (map (\<lambda>r. snd (do_channel h adc r (P r))) rs)) = []"
  by (induction rs) (simp_all add: do_channel_inactive_no_off)

text \<open>
  C3. In a cycle where the stored pedal state is on and the pedal is read as off
  (\<open>sustainPedalValue\<close> high), the sweep leaves every channel inactive, changing no other
  field, and sends one note-off for each channel that was active, in row order, whatever the
  readings of the cycle are: the messages of velocity 0 of the whole cycle are exactly those
  of the sweep, and a channel that was inactive contributes none. On a change from off to on
  and on a steady level the pedal part changes no pad and sends nothing.
\<close>

theorem pedal_release_sweep:
  assumes "wf_state st"
  shows "(curPedalState st \<and> sustainPedalValue \<longrightarrow>
            \<not> curPedalState (fst (loop_pedal sustainPedalValue st))
          \<and> (\<forall>r<16. channel (fst (loop_pedal sustainPedalValue st)) r = (channel st r)\<lparr>active := False\<rparr>)
          \<and> snd (loop_pedal sustainPedalValue st) =
              concat (map (\<lambda>r. if active (channel st r) then [NoteOff (note (channel st r))] else [])
                [0..<16])
          \<and> filter (\<lambda>m. snd (snd m) = 0) (snd (loop (sustainPedalValue, analogRead) st)) =
              snd (loop_pedal sustainPedalValue st))
       \<and> (\<not> (curPedalState st \<and> sustainPedalValue) \<longrightarrow>
            pads (fst (loop_pedal sustainPedalValue st)) = pads st
          \<and> snd (loop_pedal sustainPedalValue st) = [])"
proof (intro conjI impI)
  assume fall: "curPedalState st \<and> sustainPedalValue"
  let ?st1 = "fst (loop_pedal sustainPedalValue st)"
  show "\<not> curPedalState ?st1" using fall by simp
  show pads1: "\<forall>r<16. channel ?st1 r = (channel st r)\<lparr>active := False\<rparr>"
    using assms fall by (simp add: channel_loop_pedal)
  show sent1: "snd (loop_pedal sustainPedalValue st) =
      concat (map (\<lambda>r. if active (channel st r) then [NoteOff (note (channel st r))] else []) [0..<16])"
    using assms fall by (simp add: sent_loop_pedal del: upt_Suc)
  have wf1: "wf_state ?st1" using assms by (rule wf_loop_pedal)
  have off: "filter (\<lambda>m. snd (snd m) = 0) (snd (loop_channels analogRead ?st1)) = []"
    unfolding sent_loop_channels [OF wf1]
    by (rule filter_channels_inactive) (simp add: pads1 del: upt_Suc)
  show "filter (\<lambda>m. snd (snd m) = 0) (snd (loop (sustainPedalValue, analogRead) st)) =
      snd (loop_pedal sustainPedalValue st)"
    unfolding loop_sent filter_append off
    by (simp add: sent1 filter_sweep del: upt_Suc)
next
  assume "\<not> (curPedalState st \<and> sustainPedalValue)"
  then show "pads (fst (loop_pedal sustainPedalValue st)) = pads st"
    by (auto simp: loop_pedal_closed)
next
  assume "\<not> (curPedalState st \<and> sustainPedalValue)"
  then show "snd (loop_pedal sustainPedalValue st) = []"
    by (auto simp: loop_pedal_closed)
qed


theorem pedal_release_sweep_witness:
  "wf_state demo_held \<and> curPedalState demo_held
   \<and> active (channel demo_held 0) \<and> active (channel demo_held 2) \<and> \<not> active (channel demo_held 1)
   \<and> snd (loop_pedal True demo_held) = [NoteOff 53, NoteOff 57]
   \<and> \<not> active (channel (fst (loop_pedal True demo_held)) 0)
   \<and> filter (\<lambda>m. snd (snd m) = 0) (snd (loop (True, pad0_only 45) demo_held)) = [NoteOff 53, NoteOff 57]
   \<and> pads (fst (loop_pedal False demo_held)) = pads demo_held
   \<and> snd (loop_pedal False demo_held) = []"
proof -
  note t = pedal_release_sweep [OF wf_demo_held, of True "pad0_only 45"]
  note s = pedal_release_sweep [OF wf_demo_held, of False "pad0_only 45"]
  have held: "curPedalState demo_held"
    by (simp add: demo_held_def)
  have ch: "active (channel demo_held 0) \<and> active (channel demo_held 2) \<and> \<not> active (channel demo_held 1)"
    by (simp add: demo_held_def pads_table_def COLUMN_def ARDUINO_NUMBER_def)
  have sweep: "concat (map (\<lambda>r. if active (channel demo_held r) then [NoteOff (note (channel demo_held r))] else [])
                [0..<16]) = [NoteOff 53, NoteOff 57]"
    by (simp add: upt_16 demo_held_def pads_table_def COLUMN_def ARDUINO_NUMBER_def)
  from t held have sent: "snd (loop_pedal True demo_held) = [NoteOff 53, NoteOff 57]"
    unfolding sweep by blast
  from t held have "channel (fst (loop_pedal True demo_held)) 0 = (channel demo_held 0)\<lparr>active := False\<rparr>"
    by simp
  then have off: "\<not> active (channel (fst (loop_pedal True demo_held)) 0)"
    by simp
  from t held have cyc: "filter (\<lambda>m. snd (snd m) = 0) (snd (loop (True, pad0_only 45) demo_held))
      = [NoteOff 53, NoteOff 57]"
    unfolding sent by blast
  from s have steady: "pads (fst (loop_pedal False demo_held)) = pads demo_held
      \<and> snd (loop_pedal False demo_held) = []"
    by blast
  from wf_demo_held held ch sent off cyc steady show ?thesis by blast
qed

section \<open>The decay floor\<close>

text \<open>
  C10. When an active pad is updated with a sample at or below \<open>minAmplitude\<close>, the update
  leaves \<open>curAmplitude\<close> equal to \<open>minAmplitude\<close>, pedal down or up, and its whole result is
  the same whatever \<open>curAmplitude\<close> held before: the minimum tracked on the way is overwritten
  and nothing of it reaches the next cycle.
\<close>

theorem decay_floor_clamped:
  assumes "active pad" and "analogRead pinADC \<le> uint (minAmplitude pad)"
  shows "curAmplitude (fst (do_channel h analogRead pinADC pad)) = minAmplitude pad
       \<and> do_channel h analogRead pinADC (pad\<lparr>curAmplitude := c\<rparr>) = do_channel h analogRead pinADC pad"
  using assms by (simp add: do_channel_below)

theorem decay_floor_clamped_witness:
  "active ((pad_entry 53)\<lparr>active := True, curAmplitude := 45\<rparr>)
   \<and> (\<lambda>_. 5) (0::nat) \<le> uint (minAmplitude ((pad_entry 53)\<lparr>active := True, curAmplitude := 45\<rparr>))
   \<and> curAmplitude (fst (do_channel True (\<lambda>_. 5) 0 ((pad_entry 53)\<lparr>active := True, curAmplitude := 45\<rparr>))) = 30
   \<and> curAmplitude (fst (do_channel False (\<lambda>_. 5) 0 ((pad_entry 53)\<lparr>active := True, curAmplitude := 45\<rparr>))) = 30
   \<and> do_channel True (\<lambda>_. 5) 0 ((pad_entry 53)\<lparr>active := True, curAmplitude := 45\<rparr>\<lparr>curAmplitude := 3\<rparr>)
       = do_channel True (\<lambda>_. 5) 0 ((pad_entry 53)\<lparr>active := True, curAmplitude := 45\<rparr>)"
proof -
  let ?p = "(pad_entry 53)\<lparr>active := True, curAmplitude := 45\<rparr>"
  have a: "active ?p" by simp
  have b: "(\<lambda>_. 5) (0::nat) \<le> uint (minAmplitude ?p)" by simp
  note t = decay_floor_clamped [where pad = ?p and analogRead = "\<lambda>_. 5" and pinADC = 0 and c = 3]
  from t [where h = True] t [where h = False] a b
  show ?thesis by simp
qed

section \<open>The pedal holds notes\<close>

lemma do_channel_held_active:
  "active pad \<Longrightarrow> active (fst (do_channel True adc pin pad))"
  by (simp add: do_channel_cases)

lemma do_channel_held_no_off:
  "m \<in> set (snd (do_channel True adc pin pad)) \<Longrightarrow> snd (snd m) \<noteq> 0"
  by (auto simp: do_channel_cases NoteOn_def split: if_splits)

lemma do_channel_note [simp]: "note (fst (do_channel h adc pin pad)) = note pad"
  by (simp add: do_channel_cases)

lemma do_channel_minAmplitude [simp]: "minAmplitude (fst (do_channel h adc pin pad)) = minAmplitude pad"
  by (simp add: do_channel_cases)

text \<open>One cycle with the pedal read as pressed (\<open>sustainPedalValue\<close> low).\<close>

lemma held_cycle:
  assumes wf: "wf_state st" and r: "r < 16" and act: "active (channel st r)"
  shows "active (channel (fst (loop (False, adc) st)) r)"
    and "note (channel (fst (loop (False, adc) st)) r) = note (channel st r)"
    and "curPedalState (fst (loop (False, adc) st))"
    and "\<forall>m \<in> set (snd (loop (False, adc) st)). snd (snd m) \<noteq> 0"
proof -
  let ?st1 = "fst (loop_pedal False st)"
  have wf1: "wf_state ?st1" using wf by (rule wf_loop_pedal)
  have ch1: "channel ?st1 r = channel st r"
    using wf r by (simp add: channel_loop_pedal)
  have ch2: "channel (fst (loop (False, adc) st)) r = fst (do_channel True adc r (channel st r))"
    using wf1 r ch1 by (simp add: loop_state channel_loop_channels)
  show "active (channel (fst (loop (False, adc) st)) r)"
    unfolding ch2 using act by (rule do_channel_held_active)
  show "note (channel (fst (loop (False, adc) st)) r) = note (channel st r)"
    unfolding ch2 by simp
  show "curPedalState (fst (loop (False, adc) st))"
    by (simp add: loop_state)
  show "\<forall>m \<in> set (snd (loop (False, adc) st)). snd (snd m) \<noteq> 0"
    using wf wf1
    by (auto simp: loop_sent sent_loop_pedal sent_loop_channels dest: do_channel_held_no_off
        simp del: upt_Suc)
qed

lemma held_run:
  assumes "wf_state st" and "r < 16" and "active (channel st r)"
    and "\<forall>inp \<in> set inps. \<not> fst inp"
  shows "active (channel (fst (run inps st)) r)
       \<and> note (channel (fst (run inps st)) r) = note (channel st r)
       \<and> (inps \<noteq> [] \<longrightarrow> curPedalState (fst (run inps st)))
       \<and> (\<forall>out \<in> set (snd (run inps st)). \<forall>m \<in> set out. snd (snd m) \<noteq> 0)"
  using assms
proof (induction inps arbitrary: st)
  case Nil
  then show ?case by simp
next
  case (Cons inp inps)
  obtain adc where inp: "inp = (False, adc)"
    using Cons.prems(4) by (cases inp) auto
  let ?st' = "fst (loop inp st)"
  have wf': "wf_state ?st'" using Cons.prems(1) by (rule wf_loop)
  note c = held_cycle [OF Cons.prems(1-3), of adc, folded inp]
  have rest: "\<forall>i \<in> set inps. \<not> fst i" using Cons.prems(4) by simp
  note ih = Cons.IH [OF wf' Cons.prems(2) c(1) rest]
  have pedal: "curPedalState (fst (run inps ?st'))"
  proof (cases inps)
    case Nil
    then show ?thesis using c(3) by simp
  next
    case (Cons a list)
    then show ?thesis using ih by simp
  qed
  show ?case
    unfolding run_Cons using ih c pedal by simp
qed

lemma sweep_member:
  "r < 16 \<Longrightarrow> active (channel st r) \<Longrightarrow>
   NoteOff (note (channel st r)) \<in>
     set (concat (map (\<lambda>r. if active (channel st r) then [NoteOff (note (channel st r))] else [])
           [0..<16]))"
  by (auto simp del: upt_Suc intro!: bexI [of _ r])

text \<open>
  C4. With the pedal down, the update of an active pad whose sample is at or below
  \<open>minAmplitude\<close> keeps the pad active and sends nothing. Over any number of cycles in which
  the pedal is read as pressed, an active channel stays active whatever the readings are, and
  no message of velocity 0 is sent at all; the pedal state stored is then on, so the next
  cycle that reads the pedal as released sweeps the channel: it becomes inactive and its
  note-off is sent.
\<close>

theorem hold_suppresses_release:
  assumes "wf_state st" and "r < 16" and "active (channel st r)"
    and "inps \<noteq> []" and "\<forall>inp \<in> set inps. \<not> fst inp"
  shows "(active pad \<and> analogRead pinADC \<le> uint (minAmplitude pad) \<longrightarrow>
            do_channel True analogRead pinADC pad = (pad\<lparr>curAmplitude := minAmplitude pad\<rparr>, []))
       \<and> active (channel (fst (run inps st)) r)
       \<and> (\<forall>out \<in> set (snd (run inps st)). \<forall>m \<in> set out. snd (snd m) \<noteq> 0)
       \<and> curPedalState (fst (run inps st))
       \<and> \<not> active (channel (fst (loop_pedal True (fst (run inps st)))) r)
       \<and> NoteOff (note (channel st r)) \<in> set (snd (loop_pedal True (fst (run inps st))))"
proof -
  let ?st' = "fst (run inps st)"
  note h = held_run [OF assms(1-3) assms(5)]
  have wf': "wf_state ?st'" using assms(1) by (rule wf_run)
  have pedal: "curPedalState ?st'" using h assms(4) by simp
  have off: "\<not> active (channel (fst (loop_pedal True ?st')) r)"
    using wf' assms(2) pedal by (simp add: channel_loop_pedal)
  have "NoteOff (note (channel ?st' r)) \<in> set (snd (loop_pedal True ?st'))"
    using wf' assms(2) pedal h sweep_member [of r ?st'] by (simp add: sent_loop_pedal del: upt_Suc)
  then have sent: "NoteOff (note (channel st r)) \<in> set (snd (loop_pedal True ?st'))"
    using h by simp
  show ?thesis
    using h pedal off sent by (simp add: do_channel_below)
qed


lemma wf_struck: "wf_state struck"
  by (simp add: wf_state_def struck_def init_state_def pads_table_def)

lemma channel0_struck: "channel struck 0 = (pad_entry 53)\<lparr>active := True, curAmplitude := 45\<rparr>"
  by (simp add: struck_def init_state_def pads_table_def COLUMN_def ARDUINO_NUMBER_def)

theorem hold_suppresses_release_witness:
  "wf_state struck \<and> (0::nat) < 16 \<and> active (channel struck 0)
   \<and> [(False, pad0_only 5), (False, pad0_only 0)] \<noteq> []
   \<and> \<not> fst (False, pad0_only 5) \<and> \<not> fst (False, pad0_only 0)
   \<and> pad0_only 5 0 \<le> uint (minAmplitude (channel struck 0))
   \<and> do_channel True (pad0_only 5) 0 (channel struck 0) =
        ((pad_entry 53)\<lparr>active := True, curAmplitude := 30\<rparr>, [])
   \<and> active (channel (fst (run [(False, pad0_only 5), (False, pad0_only 0)] struck)) 0)
   \<and> curPedalState (fst (run [(False, pad0_only 5), (False, pad0_only 0)] struck))
   \<and> \<not> active (channel (fst (loop_pedal True
          (fst (run [(False, pad0_only 5), (False, pad0_only 0)] struck)))) 0)
   \<and> NoteOff 53 \<in> set (snd (loop_pedal True
          (fst (run [(False, pad0_only 5), (False, pad0_only 0)] struck))))"
proof -
  let ?inps = "[(False, pad0_only 5), (False, pad0_only 0)]"
  have a: "active (channel struck 0)"
    by (simp add: channel0_struck)
  have n: "?inps \<noteq> []" by simp
  have p: "\<forall>inp \<in> set ?inps. \<not> fst inp" by simp
  have low: "pad0_only 5 0 \<le> uint (minAmplitude (channel struck 0))"
    by (simp add: channel0_struck pad0_only_def)
  have r: "(0::nat) < 16" by simp
  note t = hold_suppresses_release [OF wf_struck r a n p,
      where pad = "channel struck 0" and analogRead = "pad0_only 5" and pinADC = 0]
  from t a low have "do_channel True (pad0_only 5) 0 (channel struck 0) =
        ((pad_entry 53)\<lparr>active := True, curAmplitude := 30\<rparr>, [])"
    by (simp add: channel0_struck)
  with t wf_struck a low show ?thesis
    by (simp add: channel0_struck)
qed

section \<open>What an evaluation may touch\<close>

lemma do_channel_frame_eq:
  "fst (do_channel h adc pin pad) =
     pad\<lparr>active := active (fst (do_channel h adc pin pad)),
         curAmplitude := curAmplitude (fst (do_channel h adc pin pad))\<rparr>"
  by (simp add: do_channel_cases)

lemma do_channel_frame:
  "\<exists>a d. fst (do_channel h adc pin pad) = pad\<lparr>active := a, curAmplitude := d\<rparr>"
  using do_channel_frame_eq by blast

lemma do_channel_unused [simp]:
  "unused1 (fst (do_channel h adc pin pad)) = unused1 pad"
  "unused2 (fst (do_channel h adc pin pad)) = unused2 pad"
  by (simp_all add: do_channel_cases)

lemma channel_row_pads:
  "fst (channel_row h adc iROW (ps, out)) =
     ps[iROW := (ps ! iROW)[COLUMN := fst (do_channel h adc (pinsADC ! iROW) (ps ! iROW ! COLUMN))]]"
  by (simp add: channel_row_shape)

lemma channel_row_sent:
  "snd (channel_row h adc iROW (ps, out)) =
     out @ snd (do_channel h adc (pinsADC ! iROW) (ps ! iROW ! COLUMN))"
  by (simp add: channel_row_shape)

text \<open>A cycle rewrites one column of each row, keeping note and threshold.\<close>

lemma loop_entry:
  assumes wf: "wf_state st" and r: "r < 16" and c: "c < 3"
  shows "note (pads (fst (loop inp st)) ! r ! c) = note (pads st ! r ! c)"
    and "minAmplitude (pads (fst (loop inp st)) ! r ! c) = minAmplitude (pads st ! r ! c)"
    and "c \<noteq> COLUMN \<Longrightarrow> pads (fst (loop inp st)) ! r ! c = pads st ! r ! c"
proof -
  obtain v adc where inp: "inp = (v, adc)" by (cases inp)
  let ?st1 = "fst (loop_pedal v st)"
  have wf1: "wf_state ?st1" using wf by (rule wf_loop_pedal)
  have len: "length (pads st ! r) = 3" "length (pads ?st1 ! r) = 3"
    using wf wf1 r by (simp_all add: wf_stateD)
  have one: "pads ?st1 ! r ! c = (if c = COLUMN \<and> curPedalState st \<and> v
                                  then (pads st ! r ! c)\<lparr>active := False\<rparr> else pads st ! r ! c)"
    using wf r c len by (simp add: pads_loop_pedal nth_list_update)
  have two: "pads (fst (loop inp st)) ! r ! c =
      (if c = COLUMN then fst (do_channel (\<not> v) adc r (pads ?st1 ! r ! c)) else pads ?st1 ! r ! c)"
    using wf1 r c len by (simp add: inp loop_state pads_loop_channels nth_list_update)
  show "note (pads (fst (loop inp st)) ! r ! c) = note (pads st ! r ! c)"
    using one two by (auto split: if_splits)
  show "minAmplitude (pads (fst (loop inp st)) ! r ! c) = minAmplitude (pads st ! r ! c)"
    using one two by (auto split: if_splits)
  show "c \<noteq> COLUMN \<Longrightarrow> pads (fst (loop inp st)) ! r ! c = pads st ! r ! c"
    using one two by (auto split: if_splits)
qed

lemma run_entry:
  assumes "wf_state st" and "r < 16" and "c < 3"
  shows "note (pads (fst (run inps st)) ! r ! c) = note (pads st ! r ! c)
       \<and> minAmplitude (pads (fst (run inps st)) ! r ! c) = minAmplitude (pads st ! r ! c)
       \<and> (c \<noteq> COLUMN \<longrightarrow> pads (fst (run inps st)) ! r ! c = pads st ! r ! c)"
  using assms
proof (induction inps arbitrary: st)
  case Nil
  then show ?case by simp
next
  case (Cons inp inps)
  have wf': "wf_state (fst (loop inp st))" using Cons.prems(1) by (rule wf_loop)
  note ih = Cons.IH [OF wf' Cons.prems(2,3)]
  note l = loop_entry [OF Cons.prems, of inp]
  show ?case
    unfolding run_Cons using ih l by simp
qed

text \<open>
  C9. Evaluating channel \<open>iROW\<close> (one iteration of the channel loop) leaves every other
  entry of the table as it was, and in the entry of the channel itself changes at most
  \<open>active\<close> and \<open>curAmplitude\<close>; what it writes and what it sends depend on that entry alone,
  not on the rest of the table. Over any run, the note and the threshold of every entry of
  the table stay what they were, and the entries of the other columns do not change at all.
\<close>

theorem channel_frame:
  assumes "wf_state st" and "iROW < 16"
  shows "(\<forall>r c. r \<noteq> iROW \<or> c \<noteq> COLUMN \<longrightarrow>
            fst (channel_row h analogRead iROW (pads st, out)) ! r ! c = pads st ! r ! c)
       \<and> (\<exists>a d. fst (channel_row h analogRead iROW (pads st, out)) ! iROW ! COLUMN =
                  (channel st iROW)\<lparr>active := a, curAmplitude := d\<rparr>)
       \<and> (\<forall>st'. wf_state st' \<and> channel st' iROW = channel st iROW \<longrightarrow>
            fst (channel_row h analogRead iROW (pads st', out)) ! iROW ! COLUMN =
              fst (channel_row h analogRead iROW (pads st, out)) ! iROW ! COLUMN
          \<and> snd (channel_row h analogRead iROW (pads st', out)) =
              snd (channel_row h analogRead iROW (pads st, out)))
       \<and> (\<forall>r<16. \<forall>c<3.
            note (pads (fst (run inps st)) ! r ! c) = note (pads st ! r ! c)
          \<and> minAmplitude (pads (fst (run inps st)) ! r ! c) = minAmplitude (pads st ! r ! c)
          \<and> (c \<noteq> COLUMN \<longrightarrow> pads (fst (run inps st)) ! r ! c = pads st ! r ! c))"
proof (intro conjI allI impI)
  fix r c
  assume "r \<noteq> iROW \<or> c \<noteq> COLUMN"
  then show "fst (channel_row h analogRead iROW (pads st, out)) ! r ! c = pads st ! r ! c"
    using assms by (auto simp: channel_row_pads wf_stateD nth_list_update)
next
  have "fst (channel_row h analogRead iROW (pads st, out)) ! iROW ! COLUMN =
      fst (do_channel h analogRead (pinsADC ! iROW) (channel st iROW))"
    using assms by (simp add: channel_row_pads wf_stateD)
  then show "\<exists>a d. fst (channel_row h analogRead iROW (pads st, out)) ! iROW ! COLUMN =
      (channel st iROW)\<lparr>active := a, curAmplitude := d\<rparr>"
    using do_channel_frame [of h analogRead "pinsADC ! iROW" "channel st iROW"] by simp
next
  fix st'
  assume "wf_state st' \<and> channel st' iROW = channel st iROW"
  then show "fst (channel_row h analogRead iROW (pads st', out)) ! iROW ! COLUMN =
      fst (channel_row h analogRead iROW (pads st, out)) ! iROW ! COLUMN"
    using assms by (simp add: channel_row_pads wf_stateD)
next
  fix st'
  assume "wf_state st' \<and> channel st' iROW = channel st iROW"
  then show "snd (channel_row h analogRead iROW (pads st', out)) =
      snd (channel_row h analogRead iROW (pads st, out))"
    by (simp add: channel_row_sent)
next
  fix r c :: nat
  assume "r < 16" and "c < 3"
  from run_entry [OF assms(1) this, of inps]
  show "note (pads (fst (run inps st)) ! r ! c) = note (pads st ! r ! c)"
    and "minAmplitude (pads (fst (run inps st)) ! r ! c) = minAmplitude (pads st ! r ! c)"
    and "c \<noteq> COLUMN \<Longrightarrow> pads (fst (run inps st)) ! r ! c = pads st ! r ! c"
    by simp_all
qed


lemma channel0_demo_held: "channel demo_held 0 = (pad_entry 53)\<lparr>active := True, curAmplitude := 45\<rparr>"
  by (simp add: demo_held_def pads_table_def COLUMN_def ARDUINO_NUMBER_def)

theorem channel_frame_witness:
  "wf_state struck \<and> (0::nat) < 16
   \<and> (1::nat) \<noteq> 0 \<and> fst (channel_row False (pad0_only 5) 0 (pads struck, [])) ! 1 ! COLUMN = pads struck ! 1 ! COLUMN
   \<and> 1 \<noteq> COLUMN \<and> fst (channel_row False (pad0_only 5) 0 (pads struck, [])) ! 0 ! 1 = pads struck ! 0 ! 1
   \<and> (\<exists>a d. fst (channel_row False (pad0_only 5) 0 (pads struck, [])) ! 0 ! COLUMN =
              (channel struck 0)\<lparr>active := a, curAmplitude := d\<rparr>)
   \<and> wf_state demo_held \<and> channel demo_held 0 = channel struck 0
   \<and> fst (channel_row False (pad0_only 5) 0 (pads demo_held, [])) ! 0 ! COLUMN =
       fst (channel_row False (pad0_only 5) 0 (pads struck, [])) ! 0 ! COLUMN
   \<and> snd (channel_row False (pad0_only 5) 0 (pads demo_held, [])) =
       snd (channel_row False (pad0_only 5) 0 (pads struck, []))
   \<and> (2::nat) < 16 \<and> (0::nat) < 3 \<and> (1::nat) < 3
   \<and> note (pads (fst (run [(True, pad0_only 5)] struck)) ! 2 ! 0) = note (pads struck ! 2 ! 0)
   \<and> minAmplitude (pads (fst (run [(True, pad0_only 5)] struck)) ! 2 ! 0) = minAmplitude (pads struck ! 2 ! 0)
   \<and> pads (fst (run [(True, pad0_only 5)] struck)) ! 2 ! 1 = pads struck ! 2 ! 1"
proof -
  have r: "(0::nat) < 16" by simp
  note t = channel_frame [OF wf_struck r, of False "pad0_only 5" "[]" "[(True, pad0_only 5)]"]
  have col: "1 \<noteq> COLUMN" by (simp add: COLUMN_def ARDUINO_NUMBER_def)
  have same: "channel demo_held 0 = channel struck 0"
    by (simp add: channel0_demo_held channel0_struck)
  from t have a: "fst (channel_row False (pad0_only 5) 0 (pads struck, [])) ! 1 ! COLUMN = pads struck ! 1 ! COLUMN"
    by simp
  from t col have b: "fst (channel_row False (pad0_only 5) 0 (pads struck, [])) ! 0 ! 1 = pads struck ! 0 ! 1"
    by blast
  from t have c: "\<exists>a d. fst (channel_row False (pad0_only 5) 0 (pads struck, [])) ! 0 ! COLUMN =
              (channel struck 0)\<lparr>active := a, curAmplitude := d\<rparr>"
    by blast
  from t wf_demo_held same have d:
    "fst (channel_row False (pad0_only 5) 0 (pads demo_held, [])) ! 0 ! COLUMN =
       fst (channel_row False (pad0_only 5) 0 (pads struck, [])) ! 0 ! COLUMN
     \<and> snd (channel_row False (pad0_only 5) 0 (pads demo_held, [])) =
       snd (channel_row False (pad0_only 5) 0 (pads struck, []))"
    by blast
  from t have e: "\<forall>r<16. \<forall>c<3.
            note (pads (fst (run [(True, pad0_only 5)] struck)) ! r ! c) = note (pads struck ! r ! c)
          \<and> minAmplitude (pads (fst (run [(True, pad0_only 5)] struck)) ! r ! c) = minAmplitude (pads struck ! r ! c)
          \<and> (c \<noteq> COLUMN \<longrightarrow> pads (fst (run [(True, pad0_only 5)] struck)) ! r ! c = pads struck ! r ! c)"
    by blast
  have f: "note (pads (fst (run [(True, pad0_only 5)] struck)) ! 2 ! 0) = note (pads struck ! 2 ! 0)
   \<and> minAmplitude (pads (fst (run [(True, pad0_only 5)] struck)) ! 2 ! 0) = minAmplitude (pads struck ! 2 ! 0)"
    using e [rule_format, of 2 0] by simp
  have g: "pads (fst (run [(True, pad0_only 5)] struck)) ! 2 ! 1 = pads struck ! 2 ! 1"
    using e [rule_format, of 2 1] col by simp
  from wf_struck wf_demo_held col same a b c d f g show ?thesis by simp
qed

section \<open>The decay floor only falls\<close>

lemma do_channel_floor_inv:
  assumes "minAmplitude pad \<le> curAmplitude pad" and "adc pin \<le> 1023"
  shows "minAmplitude (fst (do_channel h adc pin pad)) \<le> curAmplitude (fst (do_channel h adc pin pad))"
proof (cases "uint (minAmplitude pad) < adc pin \<and> \<not> active pad")
  case True
  then have "0 \<le> adc pin"
    using uint_ge_0 [of "minAmplitude pad"] by linarith
  then have "uint (word_of_int (adc pin) :: 10 word) = adc pin"
    using assms(2) by (rule store_sample)
  then have "minAmplitude pad \<le> word_of_int (adc pin)"
    using True by (simp add: word_le_def)
  then show ?thesis
    using True by (simp add: do_channel_cases)
next
  case False
  then show ?thesis
    using assms(1) by (auto simp: do_channel_cases)
qed

lemma do_channel_floor_mono:
  "minAmplitude pad \<le> curAmplitude pad \<Longrightarrow> active pad \<Longrightarrow>
   curAmplitude (fst (do_channel h adc pin pad)) \<le> curAmplitude pad"
  by (simp add: do_channel_cases)

lemma do_channel_inactive_floor:
  assumes "\<not> active pad"
  shows "snd (do_channel h adc pin (pad\<lparr>curAmplitude := c\<rparr>)) = snd (do_channel h adc pin pad)"
    and "active (fst (do_channel h adc pin (pad\<lparr>curAmplitude := c\<rparr>))) = active (fst (do_channel h adc pin pad))"
    and "active (fst (do_channel h adc pin pad)) \<Longrightarrow>
         do_channel h adc pin (pad\<lparr>curAmplitude := c\<rparr>) = do_channel h adc pin pad"
    and "\<not> active (fst (do_channel h adc pin pad)) \<Longrightarrow>
         do_channel h adc pin (pad\<lparr>curAmplitude := c\<rparr>) = (pad\<lparr>curAmplitude := c\<rparr>, [])"
  using assms by (auto simp: do_channel_cases split: if_splits)

text \<open>The floor is never below the threshold, in any state the sketch reaches.\<close>

lemma floor_inv_loop:
  assumes wf: "wf_state st" and inv: "\<forall>r<16. minAmplitude (channel st r) \<le> curAmplitude (channel st r)"
    and rng: "adc_range (snd inp)"
  shows "\<forall>r<16. minAmplitude (channel (fst (loop inp st)) r) \<le> curAmplitude (channel (fst (loop inp st)) r)"
proof (intro allI impI)
  fix r :: nat
  assume r: "r < 16"
  obtain v adc where inp: "inp = (v, adc)" by (cases inp)
  let ?st1 = "fst (loop_pedal v st)"
  have wf1: "wf_state ?st1" using wf by (rule wf_loop_pedal)
  have one: "minAmplitude (channel ?st1 r) \<le> curAmplitude (channel ?st1 r)"
    using wf r inv by (simp add: channel_loop_pedal)
  have "adc r \<le> 1023" using rng by (simp add: inp adc_range_def)
  with one have "minAmplitude (fst (do_channel (\<not> v) adc r (channel ?st1 r)))
      \<le> curAmplitude (fst (do_channel (\<not> v) adc r (channel ?st1 r)))"
    by (rule do_channel_floor_inv)
  then show "minAmplitude (channel (fst (loop inp st)) r) \<le> curAmplitude (channel (fst (loop inp st)) r)"
    using wf1 r by (simp add: inp loop_state channel_loop_channels)
qed

lemma floor_inv_run:
  assumes "wf_state st" and "\<forall>r<16. minAmplitude (channel st r) \<le> curAmplitude (channel st r)"
    and "\<forall>inp \<in> set inps. adc_range (snd inp)"
  shows "\<forall>r<16. minAmplitude (channel (fst (run inps st)) r) \<le> curAmplitude (channel (fst (run inps st)) r)"
  using assms
proof (induction inps arbitrary: st)
  case Nil
  then show ?case by simp
next
  case (Cons inp inps)
  have wf': "wf_state (fst (loop inp st))" using Cons.prems(1) by (rule wf_loop)
  have inv': "\<forall>r<16. minAmplitude (channel (fst (loop inp st)) r) \<le> curAmplitude (channel (fst (loop inp st)) r)"
    using Cons.prems by (intro floor_inv_loop) simp_all
  have rest: "\<forall>i \<in> set inps. adc_range (snd i)" using Cons.prems(3) by simp
  show ?case
    unfolding run_Cons using Cons.IH [OF wf' inv' rest] by simp
qed

lemma floor_inv_init:
  "\<forall>r<16. minAmplitude (channel init_state r) \<le> curAmplitude (channel init_state r)"
proof -
  have "\<forall>r \<in> set [0..<16]. minAmplitude (channel init_state r) \<le> curAmplitude (channel init_state r)"
    unfolding upt_16 by (simp add: init_state_def pads_table_def COLUMN_def ARDUINO_NUMBER_def)
  then show ?thesis by simp
qed

text \<open>
  C8. Take any update of a channel that occurs in a run of the sketch from its initial
  table, on readings of the converter: the pad is the one the pedal part of the cycle left,
  and the result of \<open>do_channel\<close> on it is the pad the cycle ends with. If the pad is active
  before and after the update, \<open>curAmplitude\<close> after it is at most \<open>curAmplitude\<close> before;
  if the update activates the pad, \<open>curAmplitude\<close> is the sample. On an inactive pad
  \<open>curAmplitude\<close> decides nothing: with any other value in the field the update sends the
  same messages and leaves the same \<open>active\<close>, and a pad that stays inactive keeps the field
  as it was.
\<close>

theorem decay_floor_monotone:
  assumes "\<forall>inp \<in> set inps. adc_range (snd inp)" and "adc_range analogRead" and "r < 16"
  shows "let st0 = fst (run inps init_state);
             st = fst (loop_pedal sustainPedalValue st0);
             pad = channel st r;
             pad' = fst (do_channel (curPedalState st) analogRead (pinsADC ! r) pad)
         in channel (fst (loop (sustainPedalValue, analogRead) st0)) r = pad'
          \<and> (active pad \<and> active pad' \<longrightarrow> curAmplitude pad' \<le> curAmplitude pad)
          \<and> (\<not> active pad \<and> active pad' \<longrightarrow> uint (curAmplitude pad') = analogRead (pinsADC ! r))
          \<and> (\<not> active pad \<longrightarrow>
               (\<forall>c. snd (do_channel (curPedalState st) analogRead (pinsADC ! r) (pad\<lparr>curAmplitude := c\<rparr>))
                        = snd (do_channel (curPedalState st) analogRead (pinsADC ! r) pad)
                  \<and> active (fst (do_channel (curPedalState st) analogRead (pinsADC ! r)
                               (pad\<lparr>curAmplitude := c\<rparr>))) = active pad'
                  \<and> (\<not> active pad' \<longrightarrow>
                       curAmplitude (fst (do_channel (curPedalState st) analogRead (pinsADC ! r)
                               (pad\<lparr>curAmplitude := c\<rparr>))) = c)))"
proof -
  define st0 where "st0 = fst (run inps init_state)"
  define st where "st = fst (loop_pedal sustainPedalValue st0)"
  define pad where "pad = channel st r"
  define pad' where "pad' = fst (do_channel (curPedalState st) analogRead (pinsADC ! r) pad)"
  have wf0: "wf_state st0" unfolding st0_def using wf_init by (rule wf_run)
  have wf: "wf_state st" unfolding st_def using wf0 by (rule wf_loop_pedal)
  have inv0: "\<forall>r<16. minAmplitude (channel st0 r) \<le> curAmplitude (channel st0 r)"
    unfolding st0_def using wf_init floor_inv_init assms(1) by (rule floor_inv_run)
  have inv: "minAmplitude pad \<le> curAmplitude pad"
    unfolding pad_def st_def using wf0 assms(3) inv0 by (simp add: channel_loop_pedal)
  have pin: "pinsADC ! r = r" using assms(3) by (rule pinsADC_nth)
  have rng: "0 \<le> analogRead r" "analogRead r \<le> 1023"
    using assms(2) by (simp_all add: adc_range_def)
  have a: "channel (fst (loop (sustainPedalValue, analogRead) st0)) r = pad'"
    unfolding pad'_def pad_def pin using wf assms(3)
    by (simp add: loop_state channel_loop_channels st_def)
  have b: "active pad \<and> active pad' \<longrightarrow> curAmplitude pad' \<le> curAmplitude pad"
    unfolding pad'_def using inv by (simp add: do_channel_floor_mono)
  have c: "\<not> active pad \<and> active pad' \<longrightarrow> uint (curAmplitude pad') = analogRead (pinsADC ! r)"
    unfolding pad'_def pin using rng by (auto simp: do_channel_cases store_sample split: if_splits)
  have d: "\<not> active pad \<longrightarrow>
               (\<forall>c. snd (do_channel (curPedalState st) analogRead (pinsADC ! r) (pad\<lparr>curAmplitude := c\<rparr>))
                        = snd (do_channel (curPedalState st) analogRead (pinsADC ! r) pad)
                  \<and> active (fst (do_channel (curPedalState st) analogRead (pinsADC ! r)
                               (pad\<lparr>curAmplitude := c\<rparr>))) = active pad'
                  \<and> (\<not> active pad' \<longrightarrow>
                       curAmplitude (fst (do_channel (curPedalState st) analogRead (pinsADC ! r)
                               (pad\<lparr>curAmplitude := c\<rparr>))) = c))"
    unfolding pad'_def by (simp add: do_channel_inactive_floor)
  from a b c d show ?thesis
    unfolding Let_def st0_def [symmetric] st_def [symmetric] pad_def [symmetric] pad'_def [symmetric]
    by blast
qed


lemma adc_range_pad0_only: "0 \<le> s \<Longrightarrow> s \<le> 1023 \<Longrightarrow> adc_range (pad0_only s)"
  by (simp add: adc_range_def pad0_only_def)

lemma channel0_init: "channel init_state 0 = pad_entry 53"
  by (simp add: init_state_def pads_table_def COLUMN_def ARDUINO_NUMBER_def)

lemma curPedal_init: "\<not> curPedalState init_state"
  by (simp add: init_state_def)

theorem decay_floor_monotone_witness:
  "adc_range (snd (True, pad0_only 45)) \<and> adc_range (pad0_only 5) \<and> (0::nat) < 16
   \<and> active (channel (fst (loop_pedal False (fst (run [(True, pad0_only 45)] init_state)))) 0)
   \<and> curAmplitude (channel (fst (loop_pedal False (fst (run [(True, pad0_only 45)] init_state)))) 0) = 45
   \<and> active (channel (fst (loop (False, pad0_only 5) (fst (run [(True, pad0_only 45)] init_state)))) 0)
   \<and> curAmplitude (channel (fst (loop (False, pad0_only 5) (fst (run [(True, pad0_only 45)] init_state)))) 0) = 30
   \<and> curAmplitude (channel (fst (loop (False, pad0_only 5) (fst (run [(True, pad0_only 45)] init_state)))) 0)
       \<le> curAmplitude (channel (fst (loop_pedal False (fst (run [(True, pad0_only 45)] init_state)))) 0)
   \<and> \<not> active (channel (fst (loop_pedal True (fst (run [] init_state)))) 0)
   \<and> active (channel (fst (loop (True, pad0_only 45) (fst (run [] init_state)))) 0)
   \<and> uint (curAmplitude (channel (fst (loop (True, pad0_only 45) (fst (run [] init_state)))) 0)) = 45"
proof -
  let ?p = "(pad_entry 53)\<lparr>active := True, curAmplitude := 45\<rparr>"
  have r: "(0::nat) < 16" by simp
  have pin: "pinsADC ! 0 = 0" by (simp add: pinsADC_def)
  have i1: "\<forall>inp \<in> set [(True, pad0_only 45)]. adc_range (snd inp)"
    by (simp add: adc_range_pad0_only)
  have a5: "adc_range (pad0_only 5)" and a45: "adc_range (pad0_only 45)"
    by (simp_all add: adc_range_pad0_only)
  note t = decay_floor_monotone [OF i1 a5 r, of False, unfolded Let_def pin]
  have st0: "fst (run [(True, pad0_only 45)] init_state) = struck"
    by (simp add: step_strike)
  have pedal: "curPedalState (fst (loop_pedal False struck))"
    by simp
  have pad: "channel (fst (loop_pedal False struck)) 0 = ?p"
    using wf_struck by (simp add: channel_loop_pedal channel0_struck)
  have pad': "fst (do_channel True (pad0_only 5) 0 ?p) = ?p\<lparr>curAmplitude := 30\<rparr>"
    by (simp add: do_channel_cases pad0_only_def)
  from t have end1: "channel (fst (loop (False, pad0_only 5) struck)) 0 = ?p\<lparr>curAmplitude := 30\<rparr>"
    unfolding st0 pad by (simp add: pad')
  have first: "active (channel (fst (loop_pedal False struck)) 0)
      \<and> curAmplitude (channel (fst (loop_pedal False struck)) 0) = 45
      \<and> active (channel (fst (loop (False, pad0_only 5) struck)) 0)
      \<and> curAmplitude (channel (fst (loop (False, pad0_only 5) struck)) 0) = 30"
    by (simp add: pad end1)
  from t first have mono: "curAmplitude (channel (fst (loop (False, pad0_only 5) struck)) 0)
       \<le> curAmplitude (channel (fst (loop_pedal False struck)) 0)"
    unfolding st0 by simp
  have i0: "\<forall>inp \<in> set ([] :: cycle_input list). adc_range (snd inp)"
    by simp
  note u = decay_floor_monotone [OF i0 a45 r, of True, unfolded Let_def pin]
  have pad0: "channel (fst (loop_pedal True init_state)) 0 = pad_entry 53"
    using wf_init by (simp add: channel_loop_pedal channel0_init curPedal_init)
  have idle: "\<not> active (channel (fst (loop_pedal True init_state)) 0)"
    by (simp add: pad0)
  have end2: "channel (fst (loop (True, pad0_only 45) init_state)) 0 = ?p"
    by (simp add: step_strike channel0_struck)
  let ?q = "fst (do_channel False (pad0_only 45) 0 (channel (fst (loop_pedal True init_state)) 0))"
  from u have "channel (fst (loop (True, pad0_only 45) init_state)) 0 = ?q"
    by simp
  with end2 have q: "?q = ?p" by simp
  then have actq: "active ?q" by simp
  from u idle actq have "uint (curAmplitude ?q) = pad0_only 45 0"
    by simp
  then have "uint (curAmplitude (channel (fst (loop (True, pad0_only 45) init_state)) 0)) = 45"
    unfolding q end2 by (simp add: pad0_only_def)
  then have act: "active (channel (fst (loop (True, pad0_only 45) init_state)) 0)
      \<and> uint (curAmplitude (channel (fst (loop (True, pad0_only 45) init_state)) 0)) = 45"
    by (simp add: end2)
  from a45 a5 first mono idle act show ?thesis
    unfolding st0 by simp
qed

section \<open>Table entries with note 0\<close>

lemma up_7_8: "is_up (ucast :: 7 word \<Rightarrow> 8 word)"
  by (simp add: is_up)

lemma pitch_inj: "(ucast (n :: 7 word) :: 8 word) = ucast m \<longleftrightarrow> n = m"
proof
  assume "(ucast n :: 8 word) = ucast m"
  then have "uint (ucast n :: 8 word) = uint (ucast m :: 8 word)" by simp
  then show "n = m" by (simp add: uint_up_ucast [OF up_7_8] word_uint_eq_iff)
qed simp

lemma pitch_zero: "(ucast (n :: 7 word) :: 8 word) = 0 \<longleftrightarrow> n = 0"
  using pitch_inj [of n 0] by simp

lemma do_channel_pitch:
  "m \<in> set (snd (do_channel h adc pin pad)) \<Longrightarrow> fst (snd m) = ucast (note pad)"
  by (auto simp: do_channel_cases NoteOn_def NoteOff_def split: if_splits)

text \<open>Every message of a cycle carries the note of one of the sixteen channels.\<close>

lemma loop_pitch:
  assumes wf: "wf_state st" and m: "m \<in> set (snd (loop inp st))"
  shows "\<exists>r<16. fst (snd m) = ucast (note (channel st r))"
proof -
  obtain v adc where inp: "inp = (v, adc)" by (cases inp)
  let ?st1 = "fst (loop_pedal v st)"
  have wf1: "wf_state ?st1" using wf by (rule wf_loop_pedal)
  from m consider "m \<in> set (snd (loop_pedal v st))" | "m \<in> set (snd (loop_channels adc ?st1))"
    by (auto simp: inp loop_sent)
  then show ?thesis
  proof cases
    case 1
    then show ?thesis
      using wf by (auto simp: sent_loop_pedal NoteOff_def simp del: upt_Suc split: if_splits)
  next
    case 2
    then obtain r where r: "r < 16"
      and mr: "m \<in> set (snd (do_channel (\<not> v) adc r (channel ?st1 r)))"
      using wf1 by (auto simp: sent_loop_channels simp del: upt_Suc)
    have "note (channel ?st1 r) = note (channel st r)"
      using wf r by (simp add: channel_loop_pedal)
    then show ?thesis
      using r do_channel_pitch [OF mr] by auto
  qed
qed

lemma run_pitch:
  assumes "wf_state st" and "out \<in> set (snd (run inps st))" and "m \<in> set out"
  shows "\<exists>r<16. fst (snd m) = ucast (note (channel st r))"
  using assms
proof (induction inps arbitrary: st)
  case Nil
  then show ?case by simp
next
  case (Cons inp inps)
  have wf': "wf_state (fst (loop inp st))" using Cons.prems(1) by (rule wf_loop)
  from Cons.prems(2) consider "out = snd (loop inp st)" | "out \<in> set (snd (run inps (fst (loop inp st))))"
    by (auto simp: run_Cons simp del: run.simps(2))
  then show ?case
  proof cases
    case 1
    then show ?thesis using Cons.prems(1,3) loop_pitch by blast
  next
    case 2
    from Cons.IH [OF wf' 2 Cons.prems(3)]
    obtain r where r: "r < 16" and p: "fst (snd m) = ucast (note (channel (fst (loop inp st)) r))"
      by blast
    have "note (channel (fst (loop inp st)) r) = note (channel st r)"
      using Cons.prems(1) r by (intro loop_entry) simp_all
    then show ?thesis using r p by auto
  qed
qed

lemma init_notes: "\<forall>r<16. note (channel init_state r) \<noteq> 0"
proof -
  have "\<forall>r \<in> set [0..<16]. note (channel init_state r) \<noteq> 0"
    unfolding upt_16 by (simp add: init_state_def pads_table_def COLUMN_def ARDUINO_NUMBER_def)
  then show ?thesis by simp
qed

lemma zero_notes_off_column:
  "\<forall>r<16. \<forall>c<3. note (pads_table ! r ! c) = 0 \<longrightarrow> c \<noteq> COLUMN \<and> \<not> active (pads_table ! r ! c)"
proof -
  have "\<forall>r \<in> set [0..<16]. \<forall>c \<in> set [0..<3].
      note (pads_table ! r ! c) = 0 \<longrightarrow> c \<noteq> COLUMN \<and> \<not> active (pads_table ! r ! c)"
    unfolding upt_16 by (simp add: pads_table_def COLUMN_def ARDUINO_NUMBER_def upt_rec)
  then show ?thesis by simp
qed

text \<open>
  C1. Every table entry whose note is 0 lies outside the column the poll cycle evaluates
  (\<open>COLUMN = ARDUINO_NUMBER = 0\<close>; the sixteen channels of that column all have a note other
  than 0). So over any run from the initial table, whatever the readings and the pedal
  states, such an entry is never written: it stays as initialised, inactive; and no message
  with pitch 0 is ever sent.
\<close>

theorem unused_slots_untouched:
  "(\<forall>r<16. \<forall>c<3. note (pads_table ! r ! c) = 0 \<longrightarrow>
       c \<noteq> COLUMN
     \<and> pads (fst (run inps init_state)) ! r ! c = pads_table ! r ! c
     \<and> \<not> active (pads (fst (run inps init_state)) ! r ! c))
   \<and> (\<forall>out \<in> set (snd (run inps init_state)). \<forall>m \<in> set out. fst (snd m) \<noteq> 0)"
proof (intro conjI allI impI ballI)
  fix r c :: nat
  assume rc: "r < 16" "c < 3" and z: "note (pads_table ! r ! c) = 0"
  from zero_notes_off_column rc z show col: "c \<noteq> COLUMN" by blast
  from run_entry [OF wf_init rc, of inps] col
  show same: "pads (fst (run inps init_state)) ! r ! c = pads_table ! r ! c"
    by (simp add: init_state_def)
  from zero_notes_off_column rc z show "\<not> active (pads (fst (run inps init_state)) ! r ! c)"
    unfolding same by blast
next
  fix out m
  assume "out \<in> set (snd (run inps init_state))" and "m \<in> set out"
  with wf_init obtain r where "r < 16" and "fst (snd m) = ucast (note (channel init_state r))"
    using run_pitch by blast
  then show "fst (snd m) \<noteq> 0"
    using init_notes by (simp add: pitch_zero)
qed

theorem unused_slots_untouched_witness:
  "(15::nat) < 16 \<and> (1::nat) < 3 \<and> note (pads_table ! 15 ! 1) = 0 \<and> 1 \<noteq> COLUMN
   \<and> pads (fst (run [(True, pad0_only 45)] init_state)) ! 15 ! 1 = pads_table ! 15 ! 1
   \<and> \<not> active (pads (fst (run [(True, pad0_only 45)] init_state)) ! 15 ! 1)
   \<and> snd (run [(True, pad0_only 45)] init_state) = [[NoteOn 53 0x7F]]
   \<and> fst (snd (NoteOn 53 0x7F)) \<noteq> 0"
proof -
  note t = unused_slots_untouched [of "[(True, pad0_only 45)]"]
  have z: "note (pads_table ! 15 ! 1) = 0"
    by (simp add: pads_table_def)
  have b: "(15::nat) < 16" "(1::nat) < 3"
    by simp_all
  from t b z have slot: "1 \<noteq> COLUMN
     \<and> pads (fst (run [(True, pad0_only 45)] init_state)) ! 15 ! 1 = pads_table ! 15 ! 1
     \<and> \<not> active (pads (fst (run [(True, pad0_only 45)] init_state)) ! 15 ! 1)"
    by blast
  have sent: "snd (run [(True, pad0_only 45)] init_state) = [[NoteOn 53 0x7F]]"
    by (simp add: step_strike)
  from t have "\<forall>out \<in> set (snd (run [(True, pad0_only 45)] init_state)). \<forall>m \<in> set out. fst (snd m) \<noteq> 0"
    by blast
  then have pitch: "fst (snd (NoteOn 53 0x7F)) \<noteq> 0"
    unfolding sent by simp
  from b z slot sent pitch show ?thesis by blast
qed

section \<open>One event for each change of the active flag\<close>

lemma NoteOn_eq [simp]: "NoteOn n v = NoteOn n' v' \<longleftrightarrow> n = n' \<and> v = v'"
  by (simp add: NoteOn_def pitch_inj)

lemma NoteOff_eq [simp]: "NoteOff n = NoteOff n' \<longleftrightarrow> n = n'"
  by (simp add: NoteOff_def pitch_inj)

lemma NoteOn_neq_NoteOff [simp]: "NoteOn n 0x7F \<noteq> NoteOff n'" "NoteOff n' \<noteq> NoteOn n 0x7F"
  by (simp_all add: NoteOn_def NoteOff_def)

lemma do_channel_sent_flip:
  "snd (do_channel h adc pin pad) = flip_sent pad (fst (do_channel h adc pin pad))"
  by (simp add: do_channel_cases flip_sent_def)

lemma count_flip_sent:
  "count_list (flip_sent p q) (NoteOn n 0x7F) = (if \<not> active p \<and> active q \<and> note p = n then 1 else 0)"
  "count_list (flip_sent p q) (NoteOff n) = (if active p \<and> \<not> active q \<and> note p = n then 1 else 0)"
  by (simp_all add: flip_sent_def)

lemma count_flip_absent:
  assumes "n \<notin> (\<lambda>k. note (P k)) ` set ks"
  shows "count_list (concat (map (\<lambda>k. flip_sent (P k) (Q k)) ks)) (NoteOn n 0x7F) = 0"
    and "count_list (concat (map (\<lambda>k. flip_sent (P k) (Q k)) ks)) (NoteOff n) = 0"
  using assms by (induction ks) (auto simp: count_flip_sent)

lemma count_flip_row:
  assumes "distinct (map (\<lambda>k. note (P k)) ks)" and "r \<in> set ks"
  shows "count_list (concat (map (\<lambda>k. flip_sent (P k) (Q k)) ks)) (NoteOn (note (P r)) 0x7F)
           = (if \<not> active (P r) \<and> active (Q r) then 1 else 0)"
    and "count_list (concat (map (\<lambda>k. flip_sent (P k) (Q k)) ks)) (NoteOff (note (P r)))
           = (if active (P r) \<and> \<not> active (Q r) then 1 else 0)"
  using assms
proof (induction ks)
  case Nil
  {
    case 1 then show ?case by simp
  next
    case 2 then show ?case by simp
  }
next
  case (Cons k ks)
  {
    case 1
    show ?case
    proof (cases "k = r")
      case True
      then have "note (P r) \<notin> (\<lambda>k. note (P k)) ` set ks" using 1(1) by auto
      then show ?thesis using True by (simp add: count_flip_absent count_flip_sent)
    next
      case False
      then have "note (P k) \<noteq> note (P r)" using 1 by auto
      then show ?thesis using False 1 Cons.IH(1) by (simp add: count_flip_sent)
    qed
  next
    case 2
    show ?case
    proof (cases "k = r")
      case True
      then have "note (P r) \<notin> (\<lambda>k. note (P k)) ` set ks" using 2(1) by auto
      then show ?thesis using True by (simp add: count_flip_absent count_flip_sent)
    next
      case False
      then have "note (P k) \<noteq> note (P r)" using 2 by auto
      then show ?thesis using False 2 Cons.IH(2) by (simp add: count_flip_sent)
    qed
  }
qed

text \<open>Both parts of a cycle send exactly what the changes of the flags call for.\<close>

lemma sent_loop_pedal_flip:
  assumes wf: "wf_state st"
  shows "snd (loop_pedal v st) =
     concat (map (\<lambda>k. flip_sent (channel st k) (channel (fst (loop_pedal v st)) k)) [0..<16])"
proof -
  have eq: "map (\<lambda>k. flip_sent (channel st k) (channel (fst (loop_pedal v st)) k)) [0..<16]
      = map (\<lambda>k. if curPedalState st \<and> v \<and> active (channel st k)
                   then [NoteOff (note (channel st k))] else []) [0..<16]"
    using wf by (intro map_cong) (auto simp: channel_loop_pedal flip_sent_def)
  have "snd (loop_pedal v st) = concat (map (\<lambda>k. if curPedalState st \<and> v \<and> active (channel st k)
                   then [NoteOff (note (channel st k))] else []) [0..<16])"
    using wf by (cases "curPedalState st \<and> v") (auto simp: sent_loop_pedal simp del: upt_Suc)
  then show ?thesis unfolding eq .
qed

lemma sent_loop_channels_flip:
  assumes wf: "wf_state st"
  shows "snd (loop_channels adc st) =
     concat (map (\<lambda>k. flip_sent (channel st k) (channel (fst (loop_channels adc st)) k)) [0..<16])"
proof -
  have eq: "map (\<lambda>k. flip_sent (channel st k) (channel (fst (loop_channels adc st)) k)) [0..<16]
      = map (\<lambda>k. snd (do_channel (curPedalState st) adc k (channel st k))) [0..<16]"
    using wf by (intro map_cong) (auto simp: channel_loop_channels do_channel_sent_flip)
  show ?thesis
    unfolding eq using wf by (rule sent_loop_channels)
qed

lemma notes_loop_pedal:
  assumes "wf_state st"
  shows "map (\<lambda>k. note (channel (fst (loop_pedal v st)) k)) [0..<16]
       = map (\<lambda>k. note (channel st k)) [0..<16]"
  using assms by (intro map_cong) (auto simp: channel_loop_pedal)

lemma notes_loop:
  assumes "wf_state st"
  shows "map (\<lambda>k. note (channel (fst (loop inp st)) k)) [0..<16]
       = map (\<lambda>k. note (channel st k)) [0..<16]"
  using assms by (intro map_cong) (auto intro: loop_entry)

lemma count_loop:
  assumes wf: "wf_state st" and dist: "distinct (map (\<lambda>k. note (channel st k)) [0..<16])"
    and r: "r < 16"
  shows "count_list (snd (loop inp st)) (NoteOn (note (channel st r)) 0x7F) =
           (if \<not> active (channel st r) \<and> active (channel (fst (loop_pedal (fst inp) st)) r)
            then 1 else 0)
         + (if \<not> active (channel (fst (loop_pedal (fst inp) st)) r)
               \<and> active (channel (fst (loop inp st)) r) then 1 else 0)"
    and "count_list (snd (loop inp st)) (NoteOff (note (channel st r))) =
           (if active (channel st r) \<and> \<not> active (channel (fst (loop_pedal (fst inp) st)) r)
            then 1 else 0)
         + (if active (channel (fst (loop_pedal (fst inp) st)) r)
               \<and> \<not> active (channel (fst (loop inp st)) r) then 1 else 0)"
proof -
  obtain v adc where inp: "inp = (v, adc)" by (cases inp)
  let ?st1 = "fst (loop_pedal v st)"
  let ?st2 = "fst (loop_channels adc ?st1)"
  have wf1: "wf_state ?st1" using wf by (rule wf_loop_pedal)
  have dist1: "distinct (map (\<lambda>k. note (channel ?st1 k)) [0..<16])"
    using dist by (simp only: notes_loop_pedal [OF wf])
  have n1: "note (channel ?st1 r) = note (channel st r)"
    using wf r by (simp add: channel_loop_pedal)
  have rs: "r \<in> set [0..<16]" using r by simp
  note p = count_flip_row [OF dist rs, of "channel ?st1"]
  note c = count_flip_row [OF dist1 rs, of "channel ?st2", unfolded n1]
  have sent: "snd (loop (v, adc) st) =
      concat (map (\<lambda>k. flip_sent (channel st k) (channel ?st1 k)) [0..<16]) @
      concat (map (\<lambda>k. flip_sent (channel ?st1 k) (channel ?st2 k)) [0..<16])"
    unfolding loop_sent
    using sent_loop_pedal_flip [OF wf, of v] sent_loop_channels_flip [OF wf1, of adc] by simp
  have st2: "fst (loop (v, adc) st) = ?st2" by (simp add: loop_state)
  show "count_list (snd (loop inp st)) (NoteOn (note (channel st r)) 0x7F) =
           (if \<not> active (channel st r) \<and> active (channel (fst (loop_pedal (fst inp) st)) r)
            then 1 else 0)
         + (if \<not> active (channel (fst (loop_pedal (fst inp) st)) r)
               \<and> active (channel (fst (loop inp st)) r) then 1 else 0)"
    unfolding inp sent st2 count_list_append p c by simp
  show "count_list (snd (loop inp st)) (NoteOff (note (channel st r))) =
           (if active (channel st r) \<and> \<not> active (channel (fst (loop_pedal (fst inp) st)) r)
            then 1 else 0)
         + (if active (channel (fst (loop_pedal (fst inp) st)) r)
               \<and> \<not> active (channel (fst (loop inp st)) r) then 1 else 0)"
    unfolding inp sent st2 count_list_append p c by simp
qed

text \<open>
  C2. In a table whose channels have distinct notes (as the deployed column has), over any
  run and for every channel, the number of note-ons carrying the channel's note equals the
  number of changes of its \<open>active\<close> flag from inactive to active, and the number of
  note-offs carrying its note equals the number of changes from active to inactive: each
  change sends its event once, none is sent without a change, and no change goes without its
  event, whatever the pedal does.
\<close>

theorem one_event_per_transition:
  assumes "wf_state st" and "distinct (map (\<lambda>k. note (channel st k)) [0..<16])" and "r < 16"
  shows "count_list (concat (snd (run inps st))) (NoteOn (note (channel st r)) 0x7F) =
           length (filter (\<lambda>(a, b). \<not> a \<and> b) (flips r inps st))
       \<and> count_list (concat (snd (run inps st))) (NoteOff (note (channel st r))) =
           length (filter (\<lambda>(a, b). a \<and> \<not> b) (flips r inps st))"
  using assms
proof (induction inps arbitrary: st)
  case Nil
  then show ?case by simp
next
  case (Cons inp inps)
  let ?st' = "fst (loop inp st)"
  have wf': "wf_state ?st'" using Cons.prems(1) by (rule wf_loop)
  have dist': "distinct (map (\<lambda>k. note (channel ?st' k)) [0..<16])"
    using Cons.prems(2) by (simp only: notes_loop [OF Cons.prems(1)])
  have n: "note (channel ?st' r) = note (channel st r)"
    using Cons.prems(1,3) by (intro loop_entry) simp_all
  note ih = Cons.IH [OF wf' dist' Cons.prems(3), unfolded n]
  note c = count_loop [OF Cons.prems, of inp]
  show ?case
    unfolding run_Cons using ih c by (simp add: count_list_append)
qed


lemma init_notes_distinct: "distinct (map (\<lambda>k. note (channel init_state k)) [0..<16])"
  unfolding upt_16 by (simp add: init_state_def pads_table_def COLUMN_def ARDUINO_NUMBER_def)

lemma pedal_up_init: "fst (loop_pedal True init_state) = init_state"
  by (simp add: loop_pedal_closed init_state_def)

lemma pedal_up_struck: "fst (loop_pedal True struck) = struck"
  by (simp add: loop_pedal_closed struck_def init_state_def)

theorem one_event_per_transition_witness:
  "wf_state init_state \<and> distinct (map (\<lambda>k. note (channel init_state k)) [0..<16]) \<and> (0::nat) < 16
   \<and> note (channel init_state 0) = 53
   \<and> concat (snd (run [(True, pad0_only 45), (True, pad0_only 5)] init_state))
       = [NoteOn 53 0x7F, NoteOff 53]
   \<and> flips 0 [(True, pad0_only 45), (True, pad0_only 5)] init_state
       = [(False, False), (False, True), (True, True), (True, False)]
   \<and> count_list (concat (snd (run [(True, pad0_only 45), (True, pad0_only 5)] init_state)))
        (NoteOn 53 0x7F) = 1
   \<and> count_list (concat (snd (run [(True, pad0_only 45), (True, pad0_only 5)] init_state)))
        (NoteOff 53) = 1"
proof -
  let ?inps = "[(True, pad0_only 45), (True, pad0_only 5)]"
  have r: "(0::nat) < 16" by simp
  have n: "note (channel init_state 0) = 53" by (simp add: channel0_init)
  note t = one_event_per_transition [OF wf_init init_notes_distinct r, of ?inps, unfolded n]
  have out: "concat (snd (run ?inps init_state)) = [NoteOn 53 0x7F, NoteOff 53]"
    by (simp add: step_strike step_decay)
  have fl: "flips 0 ?inps init_state = [(False, False), (False, True), (True, True), (True, False)]"
    by (simp add: pedal_up_init pedal_up_struck step_strike step_decay channel0_init channel0_struck)
  have "length (filter (\<lambda>(a, b). \<not> a \<and> b) (flips 0 ?inps init_state)) = 1"
    and "length (filter (\<lambda>(a, b). a \<and> \<not> b) (flips 0 ?inps init_state)) = 1"
    unfolding fl by simp_all
  with t have cnt: "count_list (concat (snd (run ?inps init_state))) (NoteOn 53 0x7F) = 1
      \<and> count_list (concat (snd (run ?inps init_state))) (NoteOff 53) = 1"
    by (simp only:)
  from wf_init init_notes_distinct r n out fl cnt show ?thesis by blast
qed

end
